theory Spec2Isabelle
  imports Complex_Main "HOL-Library.Sublist"
begin

section \<open>JavaScript strings and regular expressions\<close>

text \<open>
  A JavaScript string is a sequence of UTF-16 code units. The model works over the code
  units U+0000 .. U+00FF, which are the values of \<^typ>\<open>char\<close>; a \<^typ>\<open>string\<close> is
  the list of code units. Code units above U+00FF (among them the rupee sign of the
  amount pattern) are outside the modelled alphabet.
\<close>

definition is_digit :: "char \<Rightarrow> bool" where
  "is_digit c = (c \<in> set ''0123456789'')"

text \<open>The class \<open>\s\<close>, which is also what \<open>trim\<close> removes: TAB, LF, VT, FF, CR, space
  and the no-break space.\<close>

definition is_space :: "char \<Rightarrow> bool" where
  "is_space c = (c \<in> set [CHR 0x09, CHR 0x0A, CHR 0x0B, CHR 0x0C, CHR 0x0D, CHR 0x20, CHR 0xA0])"

definition is_lower :: "char \<Rightarrow> bool" where
  "is_lower c = (c \<in> set ''abcdefghijklmnopqrstuvwxyz'')"

definition is_upper :: "char \<Rightarrow> bool" where
  "is_upper c = (c \<in> set ''ABCDEFGHIJKLMNOPQRSTUVWXYZ'')"

definition is_alpha :: "char \<Rightarrow> bool" where
  "is_alpha c = (is_lower c \<or> is_upper c)"

text \<open>The class \<open>\w\<close> that decides the word boundary \<open>\b\<close>.\<close>

definition is_word :: "char \<Rightarrow> bool" where
  "is_word c = (is_alpha c \<or> is_digit c \<or> c = CHR ''_'')"

definition lower_ascii :: "char \<Rightarrow> char" where
  "lower_ascii c =
     (case map_of (zip ''ABCDEFGHIJKLMNOPQRSTUVWXYZ'' ''abcdefghijklmnopqrstuvwxyz'') c of
        Some l \<Rightarrow> l | None \<Rightarrow> c)"

text \<open>\<open>String.prototype.toLowerCase\<close> on U+0000 .. U+00FF: the ASCII capitals and the
  Latin-1 capitals U+00C0 .. U+00DE (the multiplication sign U+00D7 apart) move up by 32.\<close>

definition lower_latin1 :: "char \<Rightarrow> char" where
  "lower_latin1 c =
     (let n = (of_char c :: nat)
      in if 192 \<le> n \<and> n \<le> 222 \<and> n \<noteq> 215 then char_of (n + 32) else lower_ascii c)"

definition toLowerCase :: "string \<Rightarrow> string" where
  "toLowerCase s = map lower_latin1 s"

definition trim :: "string \<Rightarrow> string" where
  "trim s = rev (dropWhile is_space (rev (dropWhile is_space s)))"

text \<open>
  The regular expressions of the source are kept as terms. Bounded quantifiers are spelt
  out with \<open>Opt\<close> (\<open>r{1,2}\<close> is \<open>r(r)?\<close>), which tries the same alternatives in the same
  order.
\<close>

datatype regex =
    Eps
  | Cls "char \<Rightarrow> bool"
  | Seq regex regex
  | Alt regex regex
  | Star regex
  | Grp nat regex
  | Bol
  | Eol
  | WordB

text \<open>A matcher state: the text before the current position (reversed), the text from the
  current position on, and the capture groups set so far (latest first).\<close>

datatype mstate = MState (bef: string) (rest: string) (caps: "(nat \<times> string) list")

definition consumed :: "mstate \<Rightarrow> mstate \<Rightarrow> string" where
  "consumed st st' = take (length (rest st) - length (rest st')) (rest st)"

text \<open>
  The greedy star: one more iteration first, then none. As in ECMAScript's RepeatMatcher,
  an iteration that consumes nothing is rejected.
\<close>

function star_iter :: "(mstate \<Rightarrow> mstate list) \<Rightarrow> mstate \<Rightarrow> mstate list" where
  "star_iter f st =
     concat (map (\<lambda>st'. if length (rest st') < length (rest st) then star_iter f st' else [])
                 (f st)) @ [st]"
  by pat_completeness auto
termination
  by (relation "measure (\<lambda>(f, st). length (rest st))") auto

declare star_iter.simps [simp del]

definition word_before :: "mstate \<Rightarrow> bool" where
  "word_before st = (case bef st of [] \<Rightarrow> False | c # _ \<Rightarrow> is_word c)"

definition word_after :: "mstate \<Rightarrow> bool" where
  "word_after st = (case rest st of [] \<Rightarrow> False | c # _ \<Rightarrow> is_word c)"

text \<open>
  \<open>rmatch r st\<close> lists the states in which a match of \<open>r\<close> started at \<open>st\<close> can end, in the
  order in which the backtracking matcher tries them: the head is the match it returns.
\<close>

fun rmatch :: "regex \<Rightarrow> mstate \<Rightarrow> mstate list" where
  "rmatch Eps st = [st]"
| "rmatch (Cls p) st =
     (case rest st of
        [] \<Rightarrow> []
      | c # cs \<Rightarrow> if p c then [MState (c # bef st) cs (caps st)] else [])"
| "rmatch (Seq a b) st = concat (map (rmatch b) (rmatch a st))"
| "rmatch (Alt a b) st = rmatch a st @ rmatch b st"
| "rmatch (Star a) st = star_iter (rmatch a) st"
| "rmatch (Grp k a) st =
     map (\<lambda>st'. MState (bef st') (rest st') ((k, consumed st st') # caps st')) (rmatch a st)"
| "rmatch Bol st = (if bef st = [] then [st] else [])"
| "rmatch Eol st = (if rest st = [] then [st] else [])"
| "rmatch WordB st = (if word_before st \<noteq> word_after st then [st] else [])"

definition Opt :: "regex \<Rightarrow> regex" where
  "Opt r = Alt r Eps"

definition Plus :: "regex \<Rightarrow> regex" where
  "Plus r = Seq r (Star r)"

fun seql :: "regex list \<Rightarrow> regex" where
  "seql [] = Eps"
| "seql [r] = r"
| "seql (r # rs) = Seq r (seql rs)"

fun altl :: "regex list \<Rightarrow> regex" where
  "altl [] = Eps"
| "altl [r] = r"
| "altl (r # rs) = Alt r (altl rs)"

definition Chr :: "char \<Rightarrow> regex" where
  "Chr c = Cls (\<lambda>x. x = c)"

text \<open>A pattern character under the \<open>i\<close> flag.\<close>

definition ChrI :: "char \<Rightarrow> regex" where
  "ChrI c = Cls (\<lambda>x. lower_ascii x = lower_ascii c)"

definition Lit :: "string \<Rightarrow> regex" where
  "Lit s = seql (map Chr s)"

definition LitI :: "string \<Rightarrow> regex" where
  "LitI s = seql (map ChrI s)"

definition OneOf :: "string \<Rightarrow> regex" where
  "OneOf s = Cls (\<lambda>x. x \<in> set s)"

definition Digit :: regex where
  "Digit = Cls is_digit"

definition Space :: regex where
  "Space = Cls is_space"

definition Alpha :: regex where
  "Alpha = Cls is_alpha"

text \<open>The leftmost match at or after the current position: the state where it starts
  and the state where it ends.\<close>

fun rsearch :: "regex \<Rightarrow> string \<Rightarrow> string \<Rightarrow> (mstate \<times> mstate) option" where
  "rsearch r b [] =
     (case rmatch r (MState b [] []) of
        [] \<Rightarrow> None
      | st' # _ \<Rightarrow> Some (MState b [] [], st'))"
| "rsearch r b (c # cs) =
     (case rmatch r (MState b (c # cs) []) of
        [] \<Rightarrow> rsearch r (c # b) cs
      | st' # _ \<Rightarrow> Some (MState b (c # cs) [], st'))"

text \<open>\<open>RegExp.prototype.test\<close> and \<open>String.prototype.match\<close> of a regular expression
  without the \<open>g\<close> flag.\<close>

definition rtest :: "regex \<Rightarrow> string \<Rightarrow> bool" where
  "rtest r s = (rsearch r [] s \<noteq> None)"

definition smatch :: "regex \<Rightarrow> string \<Rightarrow> (string \<times> (nat \<times> string) list) option" where
  "smatch r s =
     (case rsearch r [] s of
        None \<Rightarrow> None
      | Some (st, st') \<Rightarrow> Some (consumed st st', caps st'))"

text \<open>
  \<open>String.prototype.replace\<close> with a regular expression and a constant replacement text
  (the source's replacement texts are \<open>' '\<close> and \<open>''\<close>, without \<open>$\<close> patterns). With the
  \<open>g\<close> flag every match is replaced, the search resuming where the match ended, or one
  code unit further on after an empty match.
\<close>

fun replace_all_from :: "regex \<Rightarrow> string \<Rightarrow> string \<Rightarrow> string \<Rightarrow> string" where
  "replace_all_from r rep b [] =
     (case rmatch r (MState b [] []) of [] \<Rightarrow> [] | st' # _ \<Rightarrow> rep)"
| "replace_all_from r rep b (c # cs) =
     (case rmatch r (MState b (c # cs) []) of
        [] \<Rightarrow> c # replace_all_from r rep (c # b) cs
      | st' # _ \<Rightarrow>
          if length (rest st') < length (c # cs)
          then rep @ replace_all_from r rep (bef st') (rest st')
          else rep @ c # replace_all_from r rep (c # b) cs)"

definition replace_all :: "regex \<Rightarrow> string \<Rightarrow> string \<Rightarrow> string" where
  "replace_all r rep s = replace_all_from r rep [] s"

definition replace_first :: "regex \<Rightarrow> string \<Rightarrow> string \<Rightarrow> string" where
  "replace_first r rep s =
     (case rsearch r [] s of
        None \<Rightarrow> s
      | Some (st, st') \<Rightarrow> rev (bef st) @ rep @ rest st')"

text \<open>\<open>indexOf\<close>, \<open>lastIndexOf\<close>, \<open>includes\<close>, \<open>substring\<close> and \<open>replace\<close> with a text to
  search for. An index is an integer; \<open>-1\<close> says the text does not occur.\<close>

fun indexOf_from :: "string \<Rightarrow> string \<Rightarrow> nat \<Rightarrow> int" where
  "indexOf_from pat [] k = (if pat = [] then int k else - 1)"
| "indexOf_from pat (c # cs) k =
     (if prefix pat (c # cs) then int k else indexOf_from pat cs (Suc k))"

definition indexOf :: "string \<Rightarrow> string \<Rightarrow> int" where
  "indexOf s pat = indexOf_from pat s 0"

fun lastIndexOf_from :: "string \<Rightarrow> string \<Rightarrow> nat \<Rightarrow> int" where
  "lastIndexOf_from pat [] k = (if pat = [] then int k else - 1)"
| "lastIndexOf_from pat (c # cs) k =
     (let later = lastIndexOf_from pat cs (Suc k)
      in if later \<noteq> - 1 then later
         else if prefix pat (c # cs) then int k else - 1)"

definition lastIndexOf :: "string \<Rightarrow> string \<Rightarrow> int" where
  "lastIndexOf s pat = lastIndexOf_from pat s 0"

definition str_includes :: "string \<Rightarrow> string \<Rightarrow> bool" where
  "str_includes s pat = (indexOf s pat \<noteq> - 1)"

text \<open>\<open>substring\<close> clamps both indices to the text and swaps them when the first is the
  larger.\<close>

definition substring :: "string \<Rightarrow> int \<Rightarrow> int \<Rightarrow> string" where
  "substring s a b =
     (let n = int (length s);
          a' = min (max a 0) n;
          b' = min (max b 0) n;
          lo = min a' b';
          hi = max a' b'
      in take (nat (hi - lo)) (drop (nat lo) s))"

fun str_replace :: "string \<Rightarrow> string \<Rightarrow> string \<Rightarrow> string" where
  "str_replace pat rep [] = (if pat = [] then rep else [])"
| "str_replace pat rep (c # cs) =
     (if prefix pat (c # cs) then rep @ drop (length pat) (c # cs)
      else c # str_replace pat rep cs)"

subsection \<open>Numbers\<close>

text \<open>
  A JavaScript number is NaN, an infinity or a finite double. A finite number is modelled
  by the exact rational it denotes: the rounding of IEEE doubles is not modelled, their
  overflow is (a decimal numeral of magnitude \<open>2^1024 - 2^970\<close> or more reads as an
  infinity).
\<close>

datatype jsnum = NaN | Infinity bool | Finite rat

definition digit_of :: "char \<Rightarrow> nat" where
  "digit_of c = (of_char c :: nat) - 48"

text \<open>The value of a text of decimal digits, as a natural number or as a rational.\<close>

definition digits_val :: "string \<Rightarrow> 'a::semiring_1" where
  "digits_val ds = foldl (\<lambda>n c. 10 * n + of_nat (digit_of c)) 0 ds"

definition to_double :: "rat \<Rightarrow> jsnum" where
  "to_double v =
     (if \<bar>v\<bar> \<ge> of_int (2 ^ 1024 - 2 ^ 970) then Infinity (v < 0) else Finite v)"

text \<open>
  \<open>parseFloat\<close> reads the longest prefix that is a decimal numeral: a sign, digits, and a
  fraction. The text it is applied to holds only digits, \<open>.\<close> and \<open>-\<close>, so the exponent
  and \<open>Infinity\<close> forms cannot occur and are not modelled.
\<close>

definition parseFloat :: "string \<Rightarrow> jsnum" where
  "parseFloat t =
     (let neg = (case t of [] \<Rightarrow> False | c # _ \<Rightarrow> c = CHR ''-'');
          u = (case t of [] \<Rightarrow> [] | c # cs \<Rightarrow> if c = CHR ''-'' \<or> c = CHR ''+'' then cs else t);
          ip = takeWhile is_digit u;
          r = dropWhile is_digit u;
          fp = (case r of [] \<Rightarrow> [] | c # cs \<Rightarrow> if c = CHR ''.'' then takeWhile is_digit cs else []);
          v = digits_val ip + digits_val fp / 10 ^ length fp
      in if ip = [] \<and> fp = [] then NaN
         else to_double (if neg then - v else v))"

fun show_nat :: "nat \<Rightarrow> string" where
  "show_nat n =
     (if n < 10 then [''0123456789'' ! n]
      else show_nat (n div 10) @ [''0123456789'' ! (n mod 10)])"

declare show_nat.simps [simp del]

section \<open>Dates\<close>

text \<open>\<open>\d{1,2}\<close>, \<open>\d{2,4}\<close>, \<open>\d{4}\<close>, \<open>\d{1,3}\<close> and the separator class \<open>[\/\.\-]\<close>.\<close>

definition D12 :: regex where
  "D12 = Seq Digit (Opt Digit)"

definition D24 :: regex where
  "D24 = seql [Digit, Digit, Opt (Seq Digit (Opt Digit))]"

definition D4 :: regex where
  "D4 = seql [Digit, Digit, Digit, Digit]"

definition D13 :: regex where
  "D13 = Seq Digit (Opt (Seq Digit (Opt Digit)))"

definition DateSep :: regex where
  "DateSep = OneOf ''/.-''"

text \<open>
  \<open>monthMap\<close> is an object literal, so a lookup also finds what it inherits from
  \<open>Object.prototype\<close>. The key looked up is made of lower-case letters only, at least
  three of them, and the one inherited property with such a name is \<open>constructor\<close>,
  whose value is the function \<open>Object\<close>.
\<close>

datatype monthval = MonthNum nat | ObjectFn

definition monthMap :: "string \<Rightarrow> monthval option" where
  "monthMap k =
     (case map_of [(''jan'', 1), (''feb'', 2), (''mar'', 3), (''apr'', 4), (''may'', 5),
                   (''jun'', 6), (''jul'', 7), (''aug'', 8), (''sep'', 9), (''sept'', 9),
                   (''oct'', 10), (''nov'', 11), (''dec'', 12)] k of
        Some n \<Rightarrow> Some (MonthNum n)
      | None \<Rightarrow> if k = ''constructor'' then Some ObjectFn else None)"

definition pad2 :: "nat \<Rightarrow> string" where
  "pad2 n = (if n < 10 then ''0'' @ show_nat n else show_nat n)"

text \<open>\<open>pad2\<close> of a value of \<open>monthMap\<close>: a function is not below 10 (it compares as NaN)
  and is printed as its source text; a number that is 0 is falsy and ends the third
  shape before \<open>pad2\<close> (no month is 0).\<close>

definition pad2_month :: "monthval \<Rightarrow> string" where
  "pad2_month mv =
     (case mv of MonthNum n \<Rightarrow> pad2 n | ObjectFn \<Rightarrow> ''function Object() { [native code] }'')"

definition truthy_month :: "monthval option \<Rightarrow> bool" where
  "truthy_month mo = (case mo of None \<Rightarrow> False | Some (MonthNum n) \<Rightarrow> n \<noteq> 0 | Some ObjectFn \<Rightarrow> True)"

definition grp :: "(nat \<times> string) list \<Rightarrow> nat \<Rightarrow> string" where
  "grp g k = (case map_of g k of None \<Rightarrow> [] | Some t \<Rightarrow> t)"

definition date_text :: "nat \<Rightarrow> string \<Rightarrow> nat \<Rightarrow> string" where
  "date_text y mo d = show_nat y @ ''-'' @ mo @ ''-'' @ pad2 d"

text \<open>The three shapes of \<open>parseDateStr\<close>, tried in this order.\<close>

definition ymd_pattern :: regex where
  "ymd_pattern = seql [Bol, Grp 1 D4, DateSep, Grp 2 D12, DateSep, Grp 3 D12, Eol]"

definition dmy_pattern :: regex where
  "dmy_pattern = seql [Bol, Grp 1 D12, DateSep, Grp 2 D12, DateSep, Grp 3 D24, Eol]"

definition dMy_pattern :: regex where
  "dMy_pattern =
     seql [Bol, Grp 1 D12, Plus Space, Grp 2 (seql [Alpha, Alpha, Alpha, Star Alpha]),
           Opt (Chr CHR ''.''), Opt (Chr CHR '',''), Plus Space, Grp 3 D24, Eol]"

definition parse_ymd :: "string \<Rightarrow> string option" where
  "parse_ymd s =
     (case smatch ymd_pattern s of
        None \<Rightarrow> None
      | Some (m0, g) \<Rightarrow>
          let y = digits_val (grp g 1); mo = digits_val (grp g 2); d = digits_val (grp g 3)
          in if mo \<ge> 1 \<and> mo \<le> 12 \<and> d \<ge> 1 \<and> d \<le> 31
             then Some (date_text y (pad2 mo) d) else None)"

definition parse_dmy :: "string \<Rightarrow> string option" where
  "parse_dmy s =
     (case smatch dmy_pattern s of
        None \<Rightarrow> None
      | Some (m0, g) \<Rightarrow>
          let d = digits_val (grp g 1); mo = digits_val (grp g 2); y0 = digits_val (grp g 3);
              y = (if y0 < 100 then 2000 + y0 else y0)
          in if mo \<ge> 1 \<and> mo \<le> 12 \<and> d \<ge> 1 \<and> d \<le> 31
             then Some (date_text y (pad2 mo) d) else None)"

definition parse_dMy :: "string \<Rightarrow> string option" where
  "parse_dMy s =
     (case smatch dMy_pattern s of
        None \<Rightarrow> None
      | Some (m0, g) \<Rightarrow>
          let d = digits_val (grp g 1);
              mo = monthMap (replace_first (Seq (Chr CHR ''.'') Eol) [] (toLowerCase (grp g 2)));
              y0 = digits_val (grp g 3);
              y = (if y0 < 100 then 2000 + y0 else y0)
          in if truthy_month mo \<and> d \<ge> 1 \<and> d \<le> 31
             then Some (date_text y (pad2_month (the mo)) d) else None)"

definition parseDateStr :: "string \<Rightarrow> string option" where
  "parseDateStr s0 =
     (if s0 = [] then None
      else let s = trim s0
           in case parse_ymd s of
                Some r \<Rightarrow> Some r
              | None \<Rightarrow> (case parse_dmy s of Some r \<Rightarrow> Some r | None \<Rightarrow> parse_dMy s))"

section \<open>The statement parser\<close>

record transaction =
  statementId :: string
  date :: "string option"
  description :: string
  amount :: rat
  ttype :: string
  category :: "string option"
  confidence :: rat
  rawLine :: string
  createdAt :: string

text \<open>The fields \<open>date\<close> and \<open>category\<close> are optional because the aggregator also
  receives transactions reloaded from storage, where a property may be missing or null
  (\<open>None\<close>); the parser always sets them.\<close>

record parsingSummary =
  linesScanned :: nat
  transactionsExtracted :: nat
  skippedLines :: nat
  examplesOfSkipped :: "string list"

definition datePattern :: regex where
  "datePattern =
     altl [seql [D12, DateSep, D12, DateSep, D24],
           seql [D4, DateSep, D12, DateSep, D12],
           seql [D12, Plus Space, Alpha, Alpha, Alpha, Star Alpha, Plus Space, D24]]"

text \<open>
  The amount pattern, with the flags \<open>i\<close> and \<open>g\<close>. As the source has it, the pattern
  holds the letters \<open>KATEX_INLINE_OPEN\<close> and \<open>KATEX_INLINE_CLOSE\<close>, and \<open>?\<close> makes only
  the last letter of each optional.
\<close>

definition amtPattern :: regex where
  "amtPattern =
     seql [Opt (altl [Seq (LitI ''rs'') (Opt (Chr CHR ''.'')), LitI ''inr'', LitI ''usd'',
                      Chr CHR ''$'']),
           Star Space,
           Grp 1 (Alt (seql [Opt (OneOf ''+-''), LitI ''KATEX_INLINE_OPE'', Opt (ChrI CHR ''N''),
                             D13, Star (seql [Chr CHR '','', Digit, Digit, Digit])])
                      (Plus Digit)),
           Opt (Seq (Chr CHR ''.'') D12),
           LitI ''KATEX_INLINE_CLOS'', Opt (ChrI CHR ''E'')]"

definition creditKeywords :: "string list" where
  "creditKeywords =
     [''cr'', ''credit'', ''refund'', ''reversal'', ''interest'', ''salary'', ''deposit'',
      ''received'']"

definition debitKeywords :: "string list" where
  "debitKeywords =
     [''dr'', ''debit'', ''payment'', ''upi'', ''imps'', ''neft'', ''atm'', ''withdrawal'',
      ''pos'', ''charge'', ''fee'', ''rent'', ''emi'']"

definition categoryMap :: "(regex \<times> string) list" where
  "categoryMap =
     [(altl [LitI ''salary'', LitI ''payroll'', LitI ''wages''], ''salary''),
      (LitI ''rent'', ''rent''),
      (altl [LitI ''atm'', seql [LitI ''cash'', Star Space, LitI ''withdrawal'']],
       ''atm-withdrawal''),
      (altl [LitI ''upi'', LitI ''bill'', LitI ''electricity'', LitI ''gas'', LitI ''water'',
             LitI ''mobile'', LitI ''dth'', LitI ''recharge''], ''utilities''),
      (altl [LitI ''grocery'', LitI ''groceries'', LitI ''supermarket'',
             seql [LitI ''big'', Star Space, LitI ''bazaar''],
             seql [LitI ''more'', Star Space, LitI ''supermarket''], LitI ''dmart''],
       ''groceries''),
      (altl [LitI ''fuel'', LitI ''petrol'', LitI ''diesel'', LitI ''shell'', LitI ''hpcl'',
             LitI ''bpcl'', LitI ''iocl''], ''fuel''),
      (altl [LitI ''emi'', LitI ''loan''], ''loan''),
      (LitI ''insurance'', ''insurance''),
      (altl [LitI ''amazon'', LitI ''flipkart'', LitI ''myntra'', LitI ''ajio'', LitI ''nykaa'',
             LitI ''shopping'', LitI ''pos''], ''shopping''),
      (altl [LitI ''zomato'', LitI ''swiggy'', LitI ''uber'', LitI ''ola'', LitI ''foodpanda'',
             LitI ''eat'', LitI ''restaurant'', LitI ''coffee''], ''food''),
      (LitI ''interest'', ''interest''),
      (altl [LitI ''refund'', LitI ''reversal''], ''refund''),
      (altl [LitI ''neft'', LitI ''imps'', LitI ''rtgs'', LitI ''transfer'',
             seql [LitI ''to'', Plus Space, LitI ''acct''],
             seql [LitI ''from'', Plus Space, LitI ''acct'']], ''transfer'')]"

definition categorize :: "string \<Rightarrow> string" where
  "categorize desc =
     (case find (\<lambda>rule. rtest (fst rule) desc) categoryMap of
        Some rule \<Rightarrow> snd rule
      | None \<Rightarrow> if rtest (LitI ''upi'') desc then ''utilities'' else ''other'')"

definition jabs :: "jsnum \<Rightarrow> jsnum" where
  "jabs v = (case v of NaN \<Rightarrow> NaN | Infinity _ \<Rightarrow> Infinity False | Finite x \<Rightarrow> Finite \<bar>x\<bar>)"

definition jneg :: "jsnum \<Rightarrow> jsnum" where
  "jneg v = (case v of NaN \<Rightarrow> NaN | Infinity b \<Rightarrow> Infinity (\<not> b) | Finite x \<Rightarrow> Finite (- x))"

text \<open>\<open>toNumber\<close>; \<open>None\<close> is the source's \<open>null\<close>.\<close>

definition toNumber :: "string \<Rightarrow> jsnum option" where
  "toNumber s =
     (if s = [] then None
      else let neg = (rtest (seql [Bol, Star Space, Lit ''KATEX_INLINE_OPEN'']) s
                      \<or> rtest (seql [Bol, Star Space, Chr CHR ''-'', Star Space]) s);
               t1 = replace_all (altl [OneOf ''$,'', Seq (LitI ''rs'') (Opt (Chr CHR ''.'')),
                                       LitI ''inr'']) [] s;
               t2 = replace_all (Alt (Lit ''KATEX_INLINE_OPEN'') (Lit ''KATEX_INLINE_CLOSE'')) [] t1;
               t3 = replace_all (Plus Space) [] t2;
               t = replace_all (Cls (\<lambda>c. \<not> (is_digit c \<or> c = CHR ''.'' \<or> c = CHR ''-''))) [] t3;
               val = parseFloat t
           in if val = NaN then None
              else Some (if neg then jneg (jabs val) else val))"

definition confidenceScore :: "bool \<Rightarrow> bool \<Rightarrow> bool \<Rightarrow> bool \<Rightarrow> nat \<Rightarrow> rat" where
  "confidenceScore hasDate hasAmount hasType hasCategory descLen =
     (let s1 = (if hasDate then 0 + 35 / 100 else 0);
          s2 = (if hasAmount then s1 + 35 / 100 else s1);
          s3 = (if hasType then s2 + 15 / 100 else s2);
          s4 = (if hasCategory then s3 + 1 / 10 else s3);
          s5 = (if descLen > 3 then s4 + 5 / 100 else s4)
      in min 1 s5)"

text \<open>The filter on a match of the amount pattern.\<close>

definition amount_like :: "string \<Rightarrow> bool" where
  "amount_like matchText =
     (let digits = length (filter is_digit matchText);
          hasDecimal = rtest (seql [Chr CHR ''.'', D12, Lit ''KATEX_INLINE_CLOS'',
                                    Opt (Chr CHR ''E''), Eol]) matchText;
          hasComma = rtest (Chr CHR '','') matchText
      in digits \<ge> 2 \<and> (hasDecimal \<or> hasComma \<or> digits \<le> 8))"

text \<open>\<open>RegExp.prototype.exec\<close> of a pattern with the \<open>g\<close> flag, started at \<open>lastIndex\<close>:
  the text of the match and the new \<open>lastIndex\<close>, the index where the match ends.\<close>

definition exec_from :: "regex \<Rightarrow> string \<Rightarrow> nat \<Rightarrow> (string \<times> nat) option" where
  "exec_from r line lastIndex =
     (if lastIndex > length line then None
      else case rsearch r (rev (take lastIndex line)) (drop lastIndex line) of
             None \<Rightarrow> None
           | Some (st, st') \<Rightarrow> Some (consumed st st', length line - length (rest st')))"

text \<open>
  The loop \<open>while ((m = amtPattern.exec(line)) !== null)\<close>. It runs until \<open>exec\<close> finds
  no further match; a run that never ends is the value \<open>None\<close>.
\<close>

partial_function (option) collect_amounts :: "string \<Rightarrow> nat \<Rightarrow> string list \<Rightarrow> string list option"
  where
  "collect_amounts line lastIndex amtMatches =
     (case exec_from amtPattern line lastIndex of
        None \<Rightarrow> Some amtMatches
      | Some (matchText, e) \<Rightarrow>
          collect_amounts line e
            (if amount_like matchText then amtMatches @ [matchText] else amtMatches))"

declare collect_amounts.simps [code]

text \<open>What the loop body does with one line: it skips the line or pushes a transaction.
  No operation of the body raises on a string, so the \<open>catch\<close> branch (one more way to
  skip) is never entered and has no counterpart here.\<close>

datatype line_result = Skipped | Extracted transaction

definition clean_description :: "string \<Rightarrow> string" where
  "clean_description d =
     replace_all (seql [Plus Space, altl [Lit ''Cr'', Lit ''DR'', Lit ''Dr'', Lit ''CR''], WordB]) []
       (replace_all (seql [Space, Space, Star Space]) '' '' d)"

definition infer_type :: "string \<Rightarrow> string \<Rightarrow> rat \<Rightarrow> string" where
  "infer_type line amtRaw amt =
     (let lower = toLowerCase line;
          type1 = (if rtest (OneOf ''()'') amtRaw
                      \<or> rtest (seql [Chr CHR ''-'', Star Space, Digit]) amtRaw
                      \<or> list_ex (\<lambda>k. str_includes lower k) debitKeywords
                   then Some ''debit'' else None);
          type2 = (if rtest (Chr CHR ''+'') amtRaw
                      \<or> list_ex (\<lambda>k. str_includes lower k) creditKeywords
                   then (if type1 = Some ''debit''
                         then (if amt < 0 then Some ''debit'' else Some ''credit'')
                         else Some ''credit'')
                   else type1)
      in case type2 of
           Some t \<Rightarrow> t
         | None \<Rightarrow>
             if rtest (altl [LitI ''refund'', LitI ''reversal'', LitI ''interest'',
                             LitI ''salary'', LitI ''credited'']) line
             then ''credit'' else ''debit'')"

definition build_transaction ::
  "string \<Rightarrow> string \<Rightarrow> string \<Rightarrow> string \<Rightarrow> string \<Rightarrow> string \<Rightarrow> rat \<Rightarrow> transaction" where
  "build_transaction sid now line dateStrRaw dateISO amtRaw amt =
     (let dateIdx = indexOf line dateStrRaw;
          amtIdx = lastIndexOf line amtRaw;
          description0 =
            (if dateIdx \<noteq> - 1 \<and> amtIdx \<noteq> - 1 \<and> amtIdx > dateIdx
             then trim (substring line (dateIdx + int (length dateStrRaw)) amtIdx)
             else trim (str_replace amtRaw [] (str_replace dateStrRaw [] line)));
          descr = clean_description description0;
          type = infer_type line amtRaw amt;
          cat = categorize (if descr \<noteq> [] then descr else line);
          conf = confidenceScore True True (type \<noteq> [])
                   (cat \<noteq> [] \<and> cat \<noteq> ''other'') (length descr)
      in \<lparr> statementId = sid,
           date = Some dateISO,
           description = (if descr \<noteq> [] then descr else ''(no description)''),
           amount = \<bar>amt\<bar>,
           ttype = type,
           category = Some cat,
           confidence = conf,
           rawLine = line,
           createdAt = now \<rparr>)"

text \<open>The body of the loop over the lines; \<open>None\<close> when the inner loop does not end.\<close>

definition processLine :: "string \<Rightarrow> string \<Rightarrow> string \<Rightarrow> line_result option" where
  "processLine sid now line =
     (case smatch datePattern line of
        None \<Rightarrow> Some Skipped
      | Some (dateStrRaw, g) \<Rightarrow>
          (case parseDateStr dateStrRaw of
             None \<Rightarrow> Some Skipped
           | Some dateISO \<Rightarrow>
               (case collect_amounts line 0 [] of
                  None \<Rightarrow> None
                | Some amtMatches \<Rightarrow>
                    if amtMatches = [] then Some Skipped
                    else let amtRaw = last amtMatches
                         in (case toNumber amtRaw of
                               Some (Finite amt) \<Rightarrow>
                                 Some (Extracted
                                   (build_transaction sid now line dateStrRaw dateISO amtRaw amt))
                             | _ \<Rightarrow> Some Skipped))))"

text \<open>The state of the loop: the transactions pushed, \<open>parsingSummary.skippedLines\<close> and
  \<open>skippedExamples\<close>. The clock gives \<open>new Date().toISOString()\<close> for the transaction
  pushed after \<open>k\<close> others.\<close>

fun parse_lines ::
  "string \<Rightarrow> (nat \<Rightarrow> string) \<Rightarrow> string list \<Rightarrow> transaction list \<times> nat \<times> string list
     \<Rightarrow> (transaction list \<times> nat \<times> string list) option" where
  "parse_lines sid clock [] acc = Some acc"
| "parse_lines sid clock (line # lines) (transactions, skipped, skippedExamples) =
     (case processLine sid (clock (length transactions)) line of
        None \<Rightarrow> None
      | Some Skipped \<Rightarrow>
          parse_lines sid clock lines
            (transactions, Suc skipped,
             if length skippedExamples < 5 then skippedExamples @ [line] else skippedExamples)
      | Some (Extracted tx) \<Rightarrow>
          parse_lines sid clock lines (transactions @ [tx], skipped, skippedExamples))"

text \<open>\<open>split('\n')\<close>.\<close>

fun split_lines :: "string \<Rightarrow> string list" where
  "split_lines [] = [[]]"
| "split_lines (c # cs) =
     (if c = CHR 0x0A then [] # split_lines cs
      else case split_lines cs of
             [] \<Rightarrow> [[c]]
           | l # ls \<Rightarrow> (c # l) # ls)"

definition parseTransactions ::
  "string \<Rightarrow> string \<Rightarrow> (nat \<Rightarrow> string) \<Rightarrow> (transaction list \<times> parsingSummary) option" where
  "parseTransactions rawText sid clock =
     (let lines = filter (\<lambda>l. l \<noteq> []) (map trim (split_lines rawText))
      in case parse_lines sid clock lines ([], 0, []) of
           None \<Rightarrow> None
         | Some (transactions, skipped, skippedExamples) \<Rightarrow>
             Some (transactions,
                   \<lparr> linesScanned = length lines,
                     transactionsExtracted = length transactions,
                     skippedLines = skipped,
                     examplesOfSkipped = skippedExamples \<rparr>))"

section \<open>The analytics aggregator\<close>

text \<open>\<open>Math.round\<close> is the nearest integer, a tie going to the larger one, and
  \<open>Number.EPSILON\<close> is \<open>2^-52\<close>. The arithmetic is exact (see the note on numbers).\<close>

definition math_round :: "rat \<Rightarrow> int" where
  "math_round x = \<lfloor>x + 1 / 2\<rfloor>"

definition number_epsilon :: rat where
  "number_epsilon = 1 / 2 ^ 52"

definition round2 :: "rat \<Rightarrow> rat" where
  "round2 n = of_int (math_round ((n + number_epsilon) * 100)) / 100"

text \<open>
  \<open>Array.prototype.sort\<close> with a comparison function is stable: for a comparison that
  orders the elements consistently the result is the list below, where an element stays
  behind the elements before it that compare equal.
\<close>

fun insert_by :: "('a \<Rightarrow> 'a \<Rightarrow> rat) \<Rightarrow> 'a \<Rightarrow> 'a list \<Rightarrow> 'a list" where
  "insert_by cmp x [] = [x]"
| "insert_by cmp x (y # ys) = (if cmp x y \<le> 0 then x # y # ys else y # insert_by cmp x ys)"

definition sort_by :: "('a \<Rightarrow> 'a \<Rightarrow> rat) \<Rightarrow> 'a list \<Rightarrow> 'a list" where
  "sort_by cmp xs = foldr (insert_by cmp) xs []"

record expense =
  exp_amount :: rat
  exp_description :: string
  exp_date :: "string option"

record month_agg =
  income :: rat
  expense :: rat

record trend =
  month :: string
  trend_income :: rat
  trend_expense :: rat

record 's analyticsReport =
  rep_statementId :: string
  totalIncome :: rat
  totalExpense :: rat
  net :: rat
  byCategory :: "string \<rightharpoonup> rat"
  top5Expenses :: "expense list"
  monthlyTrends :: "trend list"
  transactionCount :: nat
  avgTransactionAmount :: rat
  rep_parsingSummary :: 's

text \<open>
  The accumulators of the pass over the transactions: \<open>sums\<close> (here \<open>acc_sums\<close>),
  \<open>byCategory\<close> (an object,
  modelled as a map for category names that \<open>Object.prototype\<close> does not define),
  \<open>expenses\<close> and \<open>byMonth\<close> (a \<open>Map\<close>, which keeps its keys in the order of their first
  insertion).
\<close>

record accum =
  acc_sums :: month_agg
  acc_byCategory :: "string \<rightharpoonup> rat"
  expenses :: "expense list"
  byMonth :: "(string \<times> month_agg) list"

definition add_amount :: "string \<Rightarrow> rat \<Rightarrow> month_agg \<Rightarrow> month_agg" where
  "add_amount ty amt agg =
     (if ty = ''credit'' then agg\<lparr>income := income agg + amt\<rparr>
      else agg\<lparr>expense := expense agg + amt\<rparr>)"

fun month_update :: "string \<Rightarrow> (month_agg \<Rightarrow> month_agg) \<Rightarrow> (string \<times> month_agg) list
    \<Rightarrow> (string \<times> month_agg) list" where
  "month_update m f [] = [(m, f \<lparr>income = 0, expense = 0\<rparr>)]"
| "month_update m f ((k, v) # kvs) =
     (if k = m then (k, f v) # kvs else (k, v) # month_update m f kvs)"

definition month_key :: "transaction \<Rightarrow> string" where
  "month_key t = take 7 (case date t of None \<Rightarrow> [] | Some d \<Rightarrow> d)"

definition category_key :: "transaction \<Rightarrow> string" where
  "category_key t = (case category t of None \<Rightarrow> ''other'' | Some c \<Rightarrow> if c = [] then ''other'' else c)"

definition analytics_step :: "accum \<Rightarrow> transaction \<Rightarrow> accum" where
  "analytics_step a t =
     (let amt = amount t;
          cat = category_key t;
          m = month_key t
      in \<lparr> acc_sums = add_amount (ttype t) amt (acc_sums a),
           acc_byCategory =
             (acc_byCategory a)(cat \<mapsto> (case acc_byCategory a cat of None \<Rightarrow> 0 | Some v \<Rightarrow> v) + amt),
           expenses =
             (if ttype t = ''debit''
              then expenses a @ [\<lparr>exp_amount = amt, exp_description = description t,
                                   exp_date = date t\<rparr>]
              else expenses a),
           byMonth =
             (if m \<noteq> [] then month_update m (add_amount (ttype t) amt) (byMonth a)
              else byMonth a) \<rparr>)"

definition accum0 :: accum where
  "accum0 = \<lparr> acc_sums = \<lparr>income = 0, expense = 0\<rparr>, acc_byCategory = Map.empty, expenses = [],
              byMonth = [] \<rparr>"

text \<open>
  \<open>computeAnalytics\<close>. \<open>String.prototype.localeCompare\<close> is defined by the host and its
  locale, so the comparison of the month keys is a parameter.
\<close>

definition computeAnalytics ::
  "(string \<Rightarrow> string \<Rightarrow> rat) \<Rightarrow> string \<Rightarrow> transaction list \<Rightarrow> 's \<Rightarrow> 's analyticsReport" where
  "computeAnalytics localeCompare sid transactions summary =
     (let a = foldl analytics_step accum0 transactions;
          top5 = take 5 (sort_by (\<lambda>x y. exp_amount y - exp_amount x) (expenses a));
          trends = map (\<lambda>(m, v). \<lparr>month = m, trend_income = round2 (income v),
                                    trend_expense = round2 (expense v)\<rparr>)
                       (sort_by (\<lambda>x y. localeCompare (fst x) (fst y)) (byMonth a));
          count = length transactions;
          avg = (if count \<noteq> 0
                 then round2 (foldl (\<lambda>s t. s + amount t) 0 transactions / of_nat count)
                 else 0)
      in \<lparr> rep_statementId = sid,
           totalIncome = round2 (income (acc_sums a)),
           totalExpense = round2 (expense (acc_sums a)),
           net = round2 (income (acc_sums a) - expense (acc_sums a)),
           byCategory = map_option round2 \<circ> acc_byCategory a,
           top5Expenses = map (\<lambda>e. e\<lparr>exp_amount := round2 (exp_amount e)\<rparr>) top5,
           monthlyTrends = trends,
           transactionCount = count,
           avgTransactionAmount = avg,
           rep_parsingSummary = summary \<rparr>)"

section \<open>The aggregator over an explicit store\<close>

text \<open>
  Whether \<open>computeAnalytics\<close> changes what it is given depends on which objects its
  writes reach, so this second model keeps every object and array in a store: a list of
  cells, an address being an index. \<open>halloc\<close> appends a new cell and \<open>hupdate\<close>
  overwrites one in place. The arguments are the addresses of the \<open>transactions\<close> array and
  of \<open>parsingSummary\<close>; the result is the final store and the address of the report.
  \<open>None\<close> in place of that address stands for a call whose argument is not an array of
  transaction objects: what the source does with it (a \<open>TypeError\<close>, or sums that are
  not numbers) is not modelled, and the store is returned as it is at that point. A cell
  that the function allocated holds what the function stored in it, so the other cases of
  a read are never taken; they leave the store as it is.
\<close>

record report_cell =
  rc_statementId :: string
  rc_totalIncome :: rat
  rc_totalExpense :: rat
  rc_net :: rat
  rc_byCategory :: nat
  rc_top5Expenses :: nat
  rc_monthlyTrends :: nat
  rc_transactionCount :: nat
  rc_avgTransactionAmount :: rat
  rc_parsingSummary :: nat

datatype 's hobj =
    TxObj transaction
  | RefArray "nat list"
  | SummaryObj 's
  | AggObj month_agg
  | CatObj "string \<rightharpoonup> rat"
  | ExpObj expense
  | MonthMap "(string \<times> nat) list"
  | EntryArr string nat
  | TrendObj trend
  | ReportObj report_cell

type_synonym 's heap = "'s hobj list"

definition hget :: "'s heap \<Rightarrow> nat \<Rightarrow> 's hobj option" where
  "hget h a = (if a < length h then Some (h ! a) else None)"

definition halloc :: "'s heap \<Rightarrow> 's hobj \<Rightarrow> 's heap \<times> nat" where
  "halloc h obj = (h @ [obj], length h)"

definition hupdate :: "'s heap \<Rightarrow> nat \<Rightarrow> 's hobj \<Rightarrow> 's heap" where
  "hupdate h a obj = h[a := obj]"

fun halloc_all :: "'s heap \<Rightarrow> 's hobj list \<Rightarrow> 's heap \<times> nat list" where
  "halloc_all h [] = (h, [])"
| "halloc_all h (obj # objs) =
     (let (h1, a) = halloc h obj; (h2, as) = halloc_all h1 objs in (h2, a # as))"

record locals =
  sumsA :: nat
  byCategoryA :: nat
  expensesA :: nat
  byMonthA :: nat

definition add_to_agg :: "'s heap \<Rightarrow> nat \<Rightarrow> string \<Rightarrow> rat \<Rightarrow> 's heap" where
  "add_to_agg h a ty amt =
     (case hget h a of
        Some (AggObj s) \<Rightarrow> hupdate h a (AggObj (add_amount ty amt s))
      | _ \<Rightarrow> h)"

definition step_h :: "locals \<Rightarrow> 's heap \<Rightarrow> transaction \<Rightarrow> 's heap" where
  "step_h L h t =
     (let amt = amount t;
          h1 = add_to_agg h (sumsA L) (ttype t) amt;
          cat = category_key t;
          h2 = (case hget h1 (byCategoryA L) of
                  Some (CatObj m) \<Rightarrow>
                    hupdate h1 (byCategoryA L)
                      (CatObj (m(cat \<mapsto> (case m cat of None \<Rightarrow> 0 | Some v \<Rightarrow> v) + amt)))
                | _ \<Rightarrow> h1);
          h3 = (if ttype t = ''debit''
                then let (h', e) = halloc h2 (ExpObj \<lparr>exp_amount = amt, exp_description = description t,
                                                      exp_date = date t\<rparr>)
                     in (case hget h' (expensesA L) of
                           Some (RefArray es) \<Rightarrow> hupdate h' (expensesA L) (RefArray (es @ [e]))
                         | _ \<Rightarrow> h')
                else h2);
          m = month_key t
      in if m \<noteq> []
         then let h4 = (case hget h3 (byMonthA L) of
                          Some (MonthMap mm) \<Rightarrow>
                            if map_of mm m = None
                            then let (h', a) = halloc h3 (AggObj \<lparr>income = 0, expense = 0\<rparr>)
                                 in hupdate h' (byMonthA L) (MonthMap (mm @ [(m, a)]))
                            else h3
                        | _ \<Rightarrow> h3)
              in (case hget h4 (byMonthA L) of
                    Some (MonthMap mm) \<Rightarrow>
                      (case map_of mm m of
                         Some agg \<Rightarrow> add_to_agg h4 agg (ttype t) amt
                       | None \<Rightarrow> h4)
                  | _ \<Rightarrow> h4)
         else h3)"

text \<open>The loop over the transactions. It reads the array once: its body never writes
  that array, so reading the array anew at each step gives the same elements.\<close>

fun loop_h :: "locals \<Rightarrow> 's heap \<Rightarrow> nat list \<Rightarrow> 's heap \<times> bool" where
  "loop_h L h [] = (h, True)"
| "loop_h L h (r # rs) =
     (case hget h r of
        Some (TxObj t) \<Rightarrow> loop_h L (step_h L h t) rs
      | _ \<Rightarrow> (h, False))"

definition amount_at :: "'s heap \<Rightarrow> nat \<Rightarrow> rat" where
  "amount_at h a = (case hget h a of Some (TxObj t) \<Rightarrow> amount t | _ \<Rightarrow> 0)"

definition exp_at :: "'s heap \<Rightarrow> nat \<Rightarrow> expense" where
  "exp_at h a = (case hget h a of Some (ExpObj e) \<Rightarrow> e | _ \<Rightarrow> \<lparr>exp_amount = 0, exp_description = [], exp_date = None\<rparr>)"

definition agg_at :: "'s heap \<Rightarrow> nat \<Rightarrow> month_agg" where
  "agg_at h a = (case hget h a of Some (AggObj s) \<Rightarrow> s | _ \<Rightarrow> \<lparr>income = 0, expense = 0\<rparr>)"

definition refs_at :: "'s heap \<Rightarrow> nat \<Rightarrow> nat list" where
  "refs_at h a = (case hget h a of Some (RefArray rs) \<Rightarrow> rs | _ \<Rightarrow> [])"

definition entry_key :: "'s heap \<Rightarrow> nat \<Rightarrow> string" where
  "entry_key h a = (case hget h a of Some (EntryArr k v) \<Rightarrow> k | _ \<Rightarrow> [])"

definition entry_val :: "'s heap \<Rightarrow> nat \<Rightarrow> nat" where
  "entry_val h a = (case hget h a of Some (EntryArr k v) \<Rightarrow> v | _ \<Rightarrow> 0)"

definition init_h :: "'s heap \<Rightarrow> 's heap \<times> locals" where
  "init_h h0 =
     (let (h1, sA) = halloc h0 (AggObj \<lparr>income = 0, expense = 0\<rparr>);
          (h2, cA) = halloc h1 (CatObj Map.empty);
          (h3, eA) = halloc h2 (RefArray []);
          (h4, mA) = halloc h3 (MonthMap [])
      in (h4, \<lparr>sumsA = sA, byCategoryA = cA, expensesA = eA, byMonthA = mA\<rparr>))"

definition top5_h :: "locals \<Rightarrow> 's heap \<Rightarrow> 's heap \<times> nat" where
  "top5_h L h =
     (let h1 = hupdate h (expensesA L)
                 (RefArray (sort_by (\<lambda>x y. exp_amount (exp_at h y) - exp_amount (exp_at h x))
                                    (refs_at h (expensesA L))))
      in halloc h1 (RefArray (take 5 (refs_at h1 (expensesA L)))))"

definition trends_h :: "(string \<Rightarrow> string \<Rightarrow> rat) \<Rightarrow> locals \<Rightarrow> 's heap \<Rightarrow> 's heap \<times> nat" where
  "trends_h localeCompare L h =
     (let mm = (case hget h (byMonthA L) of Some (MonthMap mm) \<Rightarrow> mm | _ \<Rightarrow> []);
          (h1, entries) = halloc_all h (map (\<lambda>(k, a). EntryArr k a) mm);
          (h2, entriesA) = halloc h1 (RefArray entries);
          h3 = hupdate h2 entriesA
                 (RefArray (sort_by (\<lambda>x y. localeCompare (entry_key h2 x) (entry_key h2 y))
                                    (refs_at h2 entriesA)));
          (h4, trends) = halloc_all h3
             (map (\<lambda>e. TrendObj \<lparr>month = entry_key h3 e,
                                   trend_income = round2 (income (agg_at h3 (entry_val h3 e))),
                                   trend_expense = round2 (expense (agg_at h3 (entry_val h3 e)))\<rparr>)
                  (refs_at h3 entriesA))
      in halloc h4 (RefArray trends))"

definition report_h ::
  "locals \<Rightarrow> 's heap \<Rightarrow> string \<Rightarrow> nat \<Rightarrow> nat \<Rightarrow> nat \<Rightarrow> nat \<Rightarrow> 's heap \<times> nat" where
  "report_h L h sid transactionsA top5A trendsA parsingSummaryA =
     (let txrefs = refs_at h transactionsA;
          count = length txrefs;
          avg = (if count \<noteq> 0
                 then round2 (foldl (\<lambda>s r. s + amount_at h r) 0 txrefs / of_nat count)
                 else 0);
          s = agg_at h (sumsA L);
          (h1, outCatA) = halloc h
             (CatObj (map_option round2 \<circ>
                        (case hget h (byCategoryA L) of Some (CatObj m) \<Rightarrow> m | _ \<Rightarrow> Map.empty)));
          (h2, outTop) = halloc_all h1
             (map (\<lambda>e. ExpObj ((exp_at h1 e)\<lparr>exp_amount := round2 (exp_amount (exp_at h1 e))\<rparr>))
                  (refs_at h1 top5A));
          (h3, outTopA) = halloc h2 (RefArray outTop)
      in halloc h3
           (ReportObj \<lparr> rc_statementId = sid,
                        rc_totalIncome = round2 (income s),
                        rc_totalExpense = round2 (expense s),
                        rc_net = round2 (income s - expense s),
                        rc_byCategory = outCatA,
                        rc_top5Expenses = outTopA,
                        rc_monthlyTrends = trendsA,
                        rc_transactionCount = count,
                        rc_avgTransactionAmount = avg,
                        rc_parsingSummary = parsingSummaryA \<rparr>))"

definition computeAnalytics_h ::
  "(string \<Rightarrow> string \<Rightarrow> rat) \<Rightarrow> 's heap \<Rightarrow> string \<Rightarrow> nat \<Rightarrow> nat \<Rightarrow> 's heap \<times> nat option" where
  "computeAnalytics_h localeCompare h0 sid transactionsA parsingSummaryA =
     (case hget h0 transactionsA of
        Some (RefArray txrefs) \<Rightarrow>
          (let (h1, L) = init_h h0;
               (h2, ok) = loop_h L h1 txrefs
           in if \<not> ok then (h2, None)
              else (let (h3, top5A) = top5_h L h2;
                        (h4, trendsA) = trends_h localeCompare L h3;
                        (h5, reportA) = report_h L h4 sid transactionsA top5A trendsA parsingSummaryA
                    in (h5, Some reportA)))
      | _ \<Rightarrow> (h0, None))"

section \<open>Notions used in the statements\<close>

text \<open>The least number of code units a match of a pattern consumes.\<close>

fun min_len :: "regex \<Rightarrow> nat" where
  "min_len Eps = 0"
| "min_len (Cls p) = 1"
| "min_len (Seq a b) = min_len a + min_len b"
| "min_len (Alt a b) = min (min_len a) (min_len b)"
| "min_len (Star a) = 0"
| "min_len (Grp k a) = min_len a"
| "min_len Bol = 0"
| "min_len Eol = 0"
| "min_len WordB = 0"

text \<open>The form the specification gives a date: \<open>YYYY-MM-DD\<close> with the month in 1..12
  and the day in 1..31.\<close>

definition canonical_date :: "string \<Rightarrow> bool" where
  "canonical_date s =
     (case smatch (seql [Bol, Grp 1 D4, Chr CHR ''-'', Grp 2 (Seq Digit Digit), Chr CHR ''-'',
                         Grp 3 (Seq Digit Digit), Eol]) s of
        None \<Rightarrow> False
      | Some (m0, g) \<Rightarrow>
          let mo = (digits_val (grp g 2) :: nat); d = (digits_val (grp g 3) :: nat)
          in 1 \<le> mo \<and> mo \<le> 12 \<and> 1 \<le> d \<and> d \<le> 31)"





text \<open>\<open>ext n h h'\<close>: the store \<open>h'\<close> is \<open>h\<close> with its first \<open>n\<close> cells unchanged and possibly
  more cells. \<open>month_refs_fresh n h a\<close>: the addresses kept in the \<open>Map\<close> at \<open>a\<close> are
  all \<open>n\<close> or more.\<close>

definition ext :: "nat \<Rightarrow> 's heap \<Rightarrow> 's heap \<Rightarrow> bool" where
  "ext n h h' = (length h \<le> length h' \<and> take n h' = take n h)"

definition month_refs_fresh :: "nat \<Rightarrow> 's heap \<Rightarrow> nat \<Rightarrow> bool" where
  "month_refs_fresh n h a =
     (case hget h a of Some (MonthMap mm) \<Rightarrow> list_all (\<lambda>kv. n \<le> snd kv) mm | _ \<Rightarrow> True)"

text \<open>
  What a store holds, read back as values. \<open>accum_of h L\<close> is the four accumulators of the
  loop as the pure model has them. \<open>wf_locals h L\<close>: the four locals hold an object of sums,
  an object of categories, an array of expense entries and a \<open>Map\<close> whose values are
  distinct objects of sums, none of them \<open>sums\<close> itself. \<open>report_of h a\<close> is the report at
  address \<open>a\<close> with the object and the arrays it refers to read out of the store; it is
  \<open>None\<close> if \<open>a\<close> holds no report or the report's \<open>parsingSummary\<close> is not a summary.
\<close>

definition cat_at :: "'s heap \<Rightarrow> nat \<Rightarrow> (string \<rightharpoonup> rat)" where
  "cat_at h a = (case hget h a of Some (CatObj m) \<Rightarrow> m | _ \<Rightarrow> Map.empty)"

definition month_at :: "'s heap \<Rightarrow> nat \<Rightarrow> (string \<times> nat) list" where
  "month_at h a = (case hget h a of Some (MonthMap mm) \<Rightarrow> mm | _ \<Rightarrow> [])"

definition is_agg :: "'s heap \<Rightarrow> nat \<Rightarrow> bool" where
  "is_agg h a = (case hget h a of Some (AggObj s) \<Rightarrow> True | _ \<Rightarrow> False)"

definition is_cat :: "'s heap \<Rightarrow> nat \<Rightarrow> bool" where
  "is_cat h a = (case hget h a of Some (CatObj m) \<Rightarrow> True | _ \<Rightarrow> False)"

definition is_refs :: "'s heap \<Rightarrow> nat \<Rightarrow> bool" where
  "is_refs h a = (case hget h a of Some (RefArray rs) \<Rightarrow> True | _ \<Rightarrow> False)"

definition is_exp :: "'s heap \<Rightarrow> nat \<Rightarrow> bool" where
  "is_exp h a = (case hget h a of Some (ExpObj e) \<Rightarrow> True | _ \<Rightarrow> False)"

definition is_month :: "'s heap \<Rightarrow> nat \<Rightarrow> bool" where
  "is_month h a = (case hget h a of Some (MonthMap mm) \<Rightarrow> True | _ \<Rightarrow> False)"

definition accum_of :: "'s heap \<Rightarrow> locals \<Rightarrow> accum" where
  "accum_of h L =
     \<lparr> acc_sums = agg_at h (sumsA L),
       acc_byCategory = cat_at h (byCategoryA L),
       expenses = map (exp_at h) (refs_at h (expensesA L)),
       byMonth = map (\<lambda>kv. (fst kv, agg_at h (snd kv))) (month_at h (byMonthA L)) \<rparr>"

definition wf_locals :: "'s heap \<Rightarrow> locals \<Rightarrow> bool" where
  "wf_locals h L =
     (is_agg h (sumsA L) \<and> is_cat h (byCategoryA L) \<and>
      is_refs h (expensesA L) \<and> list_all (is_exp h) (refs_at h (expensesA L)) \<and>
      is_month h (byMonthA L) \<and> distinct (map snd (month_at h (byMonthA L))) \<and>
      list_all (\<lambda>kv. snd kv \<noteq> sumsA L \<and> is_agg h (snd kv)) (month_at h (byMonthA L)))"

definition trend_at :: "'s heap \<Rightarrow> nat \<Rightarrow> trend" where
  "trend_at h a = (case hget h a of Some (TrendObj t) \<Rightarrow> t
                   | _ \<Rightarrow> \<lparr>month = [], trend_income = 0, trend_expense = 0\<rparr>)"

definition report_of :: "'s heap \<Rightarrow> nat \<Rightarrow> 's analyticsReport option" where
  "report_of h a =
     (case hget h a of
        Some (ReportObj rc) \<Rightarrow>
          (case hget h (rc_parsingSummary rc) of
             Some (SummaryObj s) \<Rightarrow>
               Some \<lparr> rep_statementId = rc_statementId rc,
                      totalIncome = rc_totalIncome rc,
                      totalExpense = rc_totalExpense rc,
                      net = rc_net rc,
                      byCategory = cat_at h (rc_byCategory rc),
                      top5Expenses = map (exp_at h) (refs_at h (rc_top5Expenses rc)),
                      monthlyTrends = map (trend_at h) (refs_at h (rc_monthlyTrends rc)),
                      transactionCount = rc_transactionCount rc,
                      avgTransactionAmount = rc_avgTransactionAmount rc,
                      rep_parsingSummary = s \<rparr>
           | _ \<Rightarrow> None)
      | _ \<Rightarrow> None)"

text \<open>Inputs for the examples: a statement of two lines with a clock, the transactions and
  the summary the parser returns for it, a list of transactions, a comparison of month keys
  by code units, and a store that holds three transactions, the array of them (one of them
  twice) and a summary.\<close>

definition example_statement :: string where
  "example_statement =
     ''Opening Balance 10000.00'' @ [CHR 0x0A] @ ''12/01/2024 SALARY CREDIT 50000.00KATEX_INLINE_CLOSE''"

definition example_clock :: "nat \<Rightarrow> string" where
  "example_clock k = ''2026-01-01T00:00:00.000Z''"

definition example_transactions :: "transaction list" where
  "example_transactions =
     [\<lparr> statementId = ''S1'', date = Some ''2024-01-12'', description = ''SALARY CREDIT'',
        amount = 50000, ttype = ''credit'', category = Some ''salary'', confidence = 1,
        rawLine = ''12/01/2024 SALARY CREDIT 50000.00KATEX_INLINE_CLOSE'',
        createdAt = ''2026-01-01T00:00:00.000Z'' \<rparr>]"

definition example_summary :: parsingSummary where
  "example_summary =
     \<lparr> linesScanned = 2, transactionsExtracted = 1, skippedLines = 1,
       examplesOfSkipped = [''Opening Balance 10000.00''] \<rparr>"

definition example_tx :: "rat \<Rightarrow> string \<Rightarrow> string option \<Rightarrow> transaction" where
  "example_tx a ty d =
     \<lparr> statementId = ''S1'', date = d, description = ''x'', amount = a, ttype = ty,
       category = Some ''other'', confidence = 1, rawLine = [], createdAt = [] \<rparr>"


definition codeunit_compare :: "string \<Rightarrow> string \<Rightarrow> rat" where
  "codeunit_compare a b =
     (if a = b then 0
      else if lexordp (\<lambda>x y. (of_char x :: nat) < of_char y) a b then - 1 else 1)"

definition example_store :: "unit heap" where
  "example_store =
     [TxObj (example_tx 10 ''debit'' (Some ''2024-02-01'')),
      TxObj (example_tx 20 ''debit'' (Some ''2024-01-01'')),
      TxObj (example_tx 5 ''credit'' None),
      RefArray [0, 1, 2, 1],
      SummaryObj ()]"

section \<open>The parser returns\<close>

lemma star_iter_shorter:
  assumes "\<And>s s'. s' \<in> set (f s) \<Longrightarrow> length (rest s') \<le> length (rest s)"
  shows "st' \<in> set (star_iter f st) \<Longrightarrow> length (rest st') \<le> length (rest st)"
proof (induction f st rule: star_iter.induct)
  case (1 f st)
  from "1.prems" have "st' = st \<or> (\<exists>x \<in> set (f st). length (rest x) < length (rest st) \<and> st' \<in> set (star_iter f x))"
    by (subst (asm) star_iter.simps) (auto split: if_splits)
  then show ?case
  proof
    assume "st' = st" then show ?thesis by simp
  next
    assume "\<exists>x \<in> set (f st). length (rest x) < length (rest st) \<and> st' \<in> set (star_iter f x)"
    then obtain x where x: "x \<in> set (f st)" "length (rest x) < length (rest st)" "st' \<in> set (star_iter f x)"
      by blast
    from "1.IH"[OF x(1) x(2) x(3)] x(2) show ?thesis by simp
  qed
qed

lemma rmatch_min_len:
  "st' \<in> set (rmatch r st) \<Longrightarrow> length (rest st') + min_len r \<le> length (rest st)"
proof (induction r arbitrary: st st')
  case (Cls p)
  then show ?case by (cases st) (auto split: list.splits if_splits)
next
  case (Seq a b)
  then obtain x where "x \<in> set (rmatch a st)" "st' \<in> set (rmatch b x)" by auto
  with Seq.IH(1)[of x st] Seq.IH(2)[of st' x] show ?case by simp
next
  case (Alt a b)
  then show ?case by (fastforce simp: min_def)
next
  case (Star a)
  have "\<And>s s'. s' \<in> set (rmatch a s) \<Longrightarrow> length (rest s') \<le> length (rest s)"
    using Star.IH by fastforce
  from star_iter_shorter[of "rmatch a", OF this] Star.prems show ?case by simp
next
  case (Grp k a)
  then show ?case by fastforce
qed (auto split: if_splits)

lemma rsearch_result:
  "rsearch r b s = Some (st, st') \<Longrightarrow>
     st' \<in> set (rmatch r st) \<and> length (rest st) \<le> length s"
proof (induction r b s rule: rsearch.induct)
  case (1 r b)
  then show ?case by (auto split: list.splits)
next
  case (2 r b c cs)
  then show ?case by (auto split: list.splits)
qed

lemma min_len_amtPattern: "1 \<le> min_len amtPattern"
  by (simp add: amtPattern_def Opt_def Plus_def LitI_def ChrI_def Chr_def D12_def D13_def Digit_def Space_def OneOf_def)

lemma exec_from_advances:
  assumes "exec_from amtPattern line i = Some (m, e)"
  shows "i < e \<and> e \<le> length line"
proof -
  from assms obtain st st' where i: "i \<le> length line"
    and s: "rsearch amtPattern (rev (take i line)) (drop i line) = Some (st, st')"
    and e: "e = length line - length (rest st')"
    by (auto simp: exec_from_def split: if_splits option.splits)
  from rsearch_result[OF s] have m: "st' \<in> set (rmatch amtPattern st)"
    and l: "length (rest st) \<le> length line - i" by auto
  from rmatch_min_len[OF m] min_len_amtPattern have "length (rest st') < length (rest st)" by simp
  with l e i show ?thesis by auto
qed

lemma collect_amounts_returns: "\<exists>r. collect_amounts line i acc = Some r"
proof (induction "Suc (length line) - i" arbitrary: i acc rule: less_induct)
  case less
  show ?case
  proof (cases "exec_from amtPattern line i")
    case None
    then show ?thesis by (subst collect_amounts.simps) simp
  next
    case (Some p)
    obtain m e where p: "p = (m, e)" by (cases p)
    from exec_from_advances[of line i m e] Some p have adv: "i < e" "e \<le> length line" by auto
    then have "Suc (length line) - e < Suc (length line) - i" by simp
    from less[OF this] obtain r where
      "collect_amounts line e (if amount_like m then acc @ [m] else acc) = Some r" by blast
    then show ?thesis using Some p by (subst collect_amounts.simps) simp
  qed
qed

lemma processLine_returns: "\<exists>r. processLine sid now line = Some r"
proof -
  obtain ms where "collect_amounts line 0 [] = Some ms" using collect_amounts_returns by blast
  then show ?thesis
    by (auto simp: processLine_def Let_def split: option.splits jsnum.splits)
qed

lemma parse_lines_returns: "\<exists>r. parse_lines sid clock ls (txs, k, ex) = Some r"
proof (induction ls arbitrary: txs k ex)
  case Nil
  then show ?case by simp
next
  case (Cons l ls)
  obtain r where r: "processLine sid (clock (length txs)) l = Some r"
    using processLine_returns by blast
  show ?case
  proof (cases r)
    case Skipped
    with r Cons.IH show ?thesis by simp
  next
    case (Extracted tx)
    with r Cons.IH show ?thesis by simp
  qed
qed

text \<open>
  Claim C2. For every input text, \<open>parseTransactions\<close> ends and returns a list of
  transactions (possibly empty) together with a parsing summary: the inner loop over the
  matches of the amount pattern always ends, because a match consumes at least one code
  unit, and nothing in the loop body raises.
\<close>

theorem parseTransactions_returns:
  "\<exists>transactions summary. parseTransactions rawText sid clock = Some (transactions, summary)"
proof -
  obtain r where "parse_lines sid clock (filter (\<lambda>l. l \<noteq> []) (map trim (split_lines rawText))) ([], 0, []) = Some r"
    using parse_lines_returns by blast
  then show ?thesis by (cases r) (auto simp: parseTransactions_def Let_def)
qed

theorem parseTransactions_returns_witness:
  "\<exists>transactions summary.
     parseTransactions example_statement ''S1'' example_clock = Some (transactions, summary)"
  by (rule parseTransactions_returns)

section \<open>What the parser returns\<close>

lemma processLine_extracted:
  assumes "processLine sid now line = Some (Extracted tx)"
  shows "\<exists>dateStrRaw dateISO amtRaw amt.
           parseDateStr dateStrRaw = Some dateISO \<and>
           tx = build_transaction sid now line dateStrRaw dateISO amtRaw amt"
  using assms
  apply (auto simp: processLine_def Let_def split: option.splits if_splits jsnum.splits)
  apply blast
  done

lemma parse_lines_counts:
  "parse_lines sid clock ls (txs, k, ex) = Some (txs', k', ex') \<Longrightarrow>
     length txs' + k' = length txs + k + length ls"
proof (induction ls arbitrary: txs k ex)
  case Nil
  then show ?case by simp
next
  case (Cons l ls)
  then show ?case
    by (auto split: option.splits line_result.splits if_splits)
qed

lemma parse_lines_built:
  "parse_lines sid clock ls (txs, k, ex) = Some (txs', k', ex') \<Longrightarrow> t \<in> set txs' \<Longrightarrow>
     t \<in> set txs \<or> (\<exists>now line. line \<in> set ls \<and> processLine sid now line = Some (Extracted t))"
proof (induction ls arbitrary: txs k ex)
  case Nil
  then show ?case by simp
next
  case (Cons l ls)
  show ?case
  proof (cases "processLine sid (clock (length txs)) l")
    case None
    with Cons.prems show ?thesis by simp
  next
    case (Some r)
    show ?thesis
    proof (cases r)
      case Skipped
      with Some Cons.prems Cons.IH[of txs "Suc k" "if length ex < 5 then ex @ [l] else ex"]
      show ?thesis by auto
    next
      case (Extracted tx)
      with Some Cons.prems Cons.IH[of "txs @ [tx]" k ex]
      show ?thesis by auto
    qed
  qed
qed

lemma parsed_transaction_built:
  assumes "parseTransactions rawText sid clock = Some (transactions, summary)"
    and "t \<in> set transactions"
  shows "\<exists>now line dateStrRaw dateISO amtRaw amt.
           parseDateStr dateStrRaw = Some dateISO \<and>
           t = build_transaction sid now line dateStrRaw dateISO amtRaw amt"
proof -
  from assms(1) obtain k ex where
    "parse_lines sid clock (filter (\<lambda>l. l \<noteq> []) (map trim (split_lines rawText))) ([], 0, [])
       = Some (transactions, k, ex)"
    by (auto simp: parseTransactions_def Let_def split: option.splits)
  from parse_lines_built[OF this assms(2)] obtain now line where
    "processLine sid now line = Some (Extracted t)" by auto
  from processLine_extracted[OF this] show ?thesis by blast
qed

lemma infer_type_cases: "infer_type line amtRaw amt = ''credit'' \<or> infer_type line amtRaw amt = ''debit''"
  by (simp add: infer_type_def Let_def split: option.splits)

lemma confidenceScore_bounds:
  "7 / 10 \<le> confidenceScore True True ht hc n \<and> confidenceScore True True ht hc n \<le> 1"
  by (simp add: confidenceScore_def Let_def min_def)

lemma parsed_transaction_fields:
  assumes "parseTransactions rawText sid clock = Some (transactions, summary)"
    and "t \<in> set transactions"
  shows "amount t \<ge> 0 \<and> 0 \<le> confidence t \<and> confidence t \<le> 1 \<and>
         (ttype t = ''credit'' \<or> ttype t = ''debit'')"
proof -
  from parsed_transaction_built[OF assms] obtain now line dateStrRaw dateISO amtRaw amt where
    t: "t = build_transaction sid now line dateStrRaw dateISO amtRaw amt" by blast
  have "7 / 10 \<le> confidence t \<and> confidence t \<le> 1"
    using confidenceScore_bounds by (simp add: t build_transaction_def Let_def)
  moreover have "ttype t = ''credit'' \<or> ttype t = ''debit''"
    using infer_type_cases[of line amtRaw amt] by (simp add: t build_transaction_def Let_def)
  moreover have "amount t \<ge> 0" by (simp add: t build_transaction_def Let_def)
  ultimately show ?thesis by auto
qed

lemma example_statement_parsed:
  "parseTransactions example_statement ''S1'' example_clock =
     Some (example_transactions, example_summary)"
  unfolding example_transactions_def example_summary_def by code_simp

text \<open>
  Claim C3. In the summary returned for any input text, \<open>transactionsExtracted\<close> is the
  length of the transaction list, and \<open>skippedLines\<close> plus that length is \<open>linesScanned\<close>,
  the number of lines that are not empty after trimming: each such line is counted once,
  as a transaction or as a skip.
\<close>

theorem summary_counts:
  assumes "parseTransactions rawText sid clock = Some (transactions, summary)"
  shows "transactionsExtracted summary = length transactions \<and>
         skippedLines summary + length transactions = linesScanned summary \<and>
         linesScanned summary = length (filter (\<lambda>l. l \<noteq> []) (map trim (split_lines rawText)))"
proof -
  from assms obtain k ex where
    p: "parse_lines sid clock (filter (\<lambda>l. l \<noteq> []) (map trim (split_lines rawText))) ([], 0, [])
       = Some (transactions, k, ex)"
    and s: "summary = \<lparr> linesScanned = length (filter (\<lambda>l. l \<noteq> []) (map trim (split_lines rawText))),
                     transactionsExtracted = length transactions,
                     skippedLines = k, examplesOfSkipped = ex \<rparr>"
    by (auto simp: parseTransactions_def Let_def split: option.splits)
  from parse_lines_counts[OF p] s show ?thesis by simp
qed

theorem summary_counts_witness:
  "parseTransactions example_statement ''S1'' example_clock =
     Some (example_transactions, example_summary) \<and>
   transactionsExtracted example_summary = length example_transactions \<and>
   skippedLines example_summary + length example_transactions = linesScanned example_summary \<and>
   linesScanned example_summary = 2"
proof -
  have two: "linesScanned example_summary = 2" by (simp add: example_summary_def)
  from summary_counts [OF example_statement_parsed] example_statement_parsed two
  show ?thesis by blast
qed

text \<open>
  Claim C7. Every transaction the parser returns has a confidence of at least 0.70: a
  transaction is only built once a date and an amount were found, and each of the two adds
  0.35 to the score.
\<close>

theorem parsed_confidence_at_least_070:
  assumes "parseTransactions rawText sid clock = Some (transactions, summary)"
    and "t \<in> set transactions"
  shows "confidence t \<ge> 7 / 10"
proof -
  from parsed_transaction_built[OF assms] obtain now line dateStrRaw dateISO amtRaw amt where
    "t = build_transaction sid now line dateStrRaw dateISO amtRaw amt" by blast
  then show ?thesis
    using confidenceScore_bounds by (simp add: build_transaction_def Let_def)
qed

theorem parsed_confidence_at_least_070_witness:
  "parseTransactions example_statement ''S1'' example_clock =
     Some (example_transactions, example_summary) \<and>
   hd example_transactions \<in> set example_transactions \<and>
   confidence (hd example_transactions) \<ge> 7 / 10"
proof -
  have m: "hd example_transactions \<in> set example_transactions"
    by (simp add: example_transactions_def)
  from parsed_confidence_at_least_070 [OF example_statement_parsed m] example_statement_parsed m
  show ?thesis by blast
qed

section \<open>The two scenario lines and the date format\<close>

text \<open>
  Claim C1. The specification expects one transaction (2024-01-12, credit, salary,
  50000.00) for the line \<open>12/01/2024 SALARY CREDIT 50,000.00\<close>. The amount pattern of
  the source asks for the letters \<open>KATEX_INLINE_CLOS\<close> after the digits, so no amount is
  found on this line: the parser returns no transaction and counts the line as skipped.
\<close>

theorem scenario_A_line_is_skipped:
  "parseTransactions ''12/01/2024 SALARY CREDIT 50,000.00'' sid clock =
     Some ([], \<lparr> linesScanned = 1, transactionsExtracted = 0, skippedLines = 1,
                 examplesOfSkipped = [''12/01/2024 SALARY CREDIT 50,000.00''] \<rparr>)"
  by code_simp

text \<open>
  Claim C6. The specification expects one transaction (2024-03-05, debit, atm-withdrawal,
  2500.00) for the line \<open>2024-03-05 ATM WITHDRAWAL (2,500.00)\<close>. For the same reason as in
  C1 the parser finds no amount on this line, returns no transaction and counts the line
  as skipped.
\<close>

theorem scenario_B_line_is_skipped:
  "parseTransactions ''2024-03-05 ATM WITHDRAWAL (2,500.00)'' sid clock =
     Some ([], \<lparr> linesScanned = 1, transactionsExtracted = 0, skippedLines = 1,
                 examplesOfSkipped = [''2024-03-05 ATM WITHDRAWAL (2,500.00)''] \<rparr>)"
  by code_simp

text \<open>The cause, for both lines: the amount pattern matches nowhere on them.\<close>

lemma no_amount_on_scenario_lines:
  "exec_from amtPattern ''12/01/2024 SALARY CREDIT 50,000.00'' 0 = None \<and>
   exec_from amtPattern ''2024-03-05 ATM WITHDRAWAL (2,500.00)'' 0 = None"
  by code_simp

text \<open>
  Claim C4. The specification says of every transaction of the parser that its amount is
  not negative, its confidence lies in [0,1], its type is credit or debit, and its date
  has the form YYYY-MM-DD with the month in 1..12 and the day in 1..31. The first three
  hold (\<open>parsed_transaction_fields\<close> above). The date does not: a year is printed without
  padding, so the line below, whose year has three digits, gives the date \<open>999-01-12\<close>;
  and the month name \<open>constructor\<close> passes the month check and is printed as a function.
\<close>

theorem three_digit_year_date:
  "parseTransactions ''12/01/999 PAYMENT 50.00KATEX_INLINE_CLOSE'' sid clock =
     Some ([\<lparr> statementId = sid, date = Some ''999-01-12'', description = ''PAYMENT'',
              amount = 50, ttype = ''debit'', category = Some ''other'', confidence = 9 / 10,
              rawLine = ''12/01/999 PAYMENT 50.00KATEX_INLINE_CLOSE'', createdAt = clock 0 \<rparr>],
           \<lparr> linesScanned = 1, transactionsExtracted = 1, skippedLines = 0,
             examplesOfSkipped = [] \<rparr>) \<and>
   \<not> canonical_date ''999-01-12''"
  by code_simp

lemma unpadded_and_inherited_dates:
  "parseDateStr ''0001-01-01'' = Some ''1-01-01'' \<and>
   parseDateStr ''12 constructor 2024'' = Some ''2024-function Object() { [native code] }-12'' \<and>
   parseDateStr ''12/01/2024'' = Some ''2024-01-12'' \<and> canonical_date ''2024-01-12''"
  by code_simp

section \<open>The aggregator\<close>





lemma set_insert_by: "set (insert_by cmp x ys) = insert x (set ys)"
  by (induction ys) auto

lemma set_sort_by: "set (sort_by cmp xs) = set xs"
  by (induction xs) (simp_all add: sort_by_def set_insert_by)






























section \<open>The aggregator leaves its arguments alone\<close>

lemma ext_refl: "ext n h h"
  by (simp add: ext_def)

lemma ext_trans: "ext n h h' \<Longrightarrow> ext n h' h'' \<Longrightarrow> ext n h h''"
  by (simp add: ext_def)

lemma ext_halloc: "n \<le> length h \<Longrightarrow> ext n h (fst (halloc h obj))"
  by (simp add: ext_def halloc_def)

lemma snd_halloc: "snd (halloc h obj) = length h"
  by (simp add: halloc_def)

lemma ext_hupdate: "n \<le> a \<Longrightarrow> ext n h (hupdate h a obj)"
  by (simp add: ext_def hupdate_def)

lemma ext_add_to_agg: "n \<le> a \<Longrightarrow> ext n h (add_to_agg h a ty amt)"
  by (auto simp: add_to_agg_def ext_hupdate ext_refl split: option.splits hobj.splits)

lemma ext_halloc_all: "n \<le> length h \<Longrightarrow> ext n h (fst (halloc_all h objs))"
proof (induction objs arbitrary: h)
  case Nil
  then show ?case by (simp add: ext_refl)
next
  case (Cons obj objs)
  have a: "ext n h (fst (halloc h obj))" using Cons.prems by (rule ext_halloc)
  then have "n \<le> length (fst (halloc h obj))" using Cons.prems by (simp add: ext_def)
  from Cons.IH[OF this] have "ext n (fst (halloc h obj)) (fst (halloc_all (fst (halloc h obj)) objs))" .
  with a have "ext n h (fst (halloc_all (fst (halloc h obj)) objs))" by (rule ext_trans)
  then show ?case by (simp add: split_def Let_def)
qed

lemma hget_hupdate:
  "hget (hupdate h b obj) a = (if a = b \<and> b < length h then Some obj else hget h a)"
  by (auto simp: hget_def hupdate_def)

lemma hget_halloc:
  "hget (fst (halloc h obj)) a = (if a = length h then Some obj else hget h a)"
  by (auto simp: hget_def halloc_def nth_append)

lemma mrf_hupdate_other:
  "month_refs_fresh n h a \<Longrightarrow> (\<And>mm. obj \<noteq> MonthMap mm) \<Longrightarrow> month_refs_fresh n (hupdate h b obj) a"
  by (cases obj) (auto simp: month_refs_fresh_def hget_hupdate)

lemma mrf_halloc_other:
  "month_refs_fresh n h a \<Longrightarrow> (\<And>mm. obj \<noteq> MonthMap mm) \<Longrightarrow> month_refs_fresh n (fst (halloc h obj)) a"
  by (cases obj) (auto simp: month_refs_fresh_def hget_halloc)

lemma mrf_add_to_agg:
  "month_refs_fresh n h a \<Longrightarrow> month_refs_fresh n (add_to_agg h b ty amt) a"
  by (auto simp: add_to_agg_def mrf_hupdate_other split: option.splits hobj.splits)

lemma mrf_hupdate_map:
  "list_all (\<lambda>kv. n \<le> snd kv) mm \<Longrightarrow> month_refs_fresh n h a \<Longrightarrow>
     month_refs_fresh n (hupdate h b (MonthMap mm)) a"
  by (auto simp: month_refs_fresh_def hget_hupdate)

lemma mrf_lookup:
  "month_refs_fresh n h a \<Longrightarrow> hget h a = Some (MonthMap mm) \<Longrightarrow> map_of mm m = Some agg \<Longrightarrow> n \<le> agg"
  by (auto simp: month_refs_fresh_def list_all_iff dest!: map_of_SomeD)

lemma length_ext: "ext n h h' \<Longrightarrow> n \<le> length h \<Longrightarrow> n \<le> length h'"
  by (simp add: ext_def)

lemma step_h_frame:
  assumes n: "n \<le> length h"
    and L: "n \<le> sumsA L" "n \<le> byCategoryA L" "n \<le> expensesA L" "n \<le> byMonthA L"
    and m: "month_refs_fresh n h (byMonthA L)"
  shows "ext n h (step_h L h t) \<and> month_refs_fresh n (step_h L h t) (byMonthA L)"
proof -
  define h1 where "h1 = add_to_agg h (sumsA L) (ttype t) (amount t)"
  define h2 where "h2 = (case hget h1 (byCategoryA L) of
                  Some (CatObj m) \<Rightarrow>
                    hupdate h1 (byCategoryA L)
                      (CatObj (m(category_key t \<mapsto> (case m (category_key t) of None \<Rightarrow> 0 | Some v \<Rightarrow> v) + amount t)))
                | _ \<Rightarrow> h1)"
  define h3 where "h3 = (if ttype t = ''debit''
                then let (h', e) = halloc h2 (ExpObj \<lparr>exp_amount = amount t, exp_description = description t,
                                                      exp_date = date t\<rparr>)
                     in (case hget h' (expensesA L) of
                           Some (RefArray es) \<Rightarrow> hupdate h' (expensesA L) (RefArray (es @ [e]))
                         | _ \<Rightarrow> h')
                else h2)"
  define h4 where "h4 = (case hget h3 (byMonthA L) of
                          Some (MonthMap mm) \<Rightarrow>
                            if map_of mm (month_key t) = None
                            then let (h', a) = halloc h3 (AggObj \<lparr>income = 0, expense = 0\<rparr>)
                                 in hupdate h' (byMonthA L) (MonthMap (mm @ [(month_key t, a)]))
                            else h3
                        | _ \<Rightarrow> h3)"
  define h5 where "h5 = (case hget h4 (byMonthA L) of
                    Some (MonthMap mm) \<Rightarrow>
                      (case map_of mm (month_key t) of
                         Some agg \<Rightarrow> add_to_agg h4 agg (ttype t) (amount t)
                       | None \<Rightarrow> h4)
                  | _ \<Rightarrow> h4)"
  have s: "step_h L h t = (if month_key t \<noteq> [] then h5 else h3)"
    unfolding h5_def h4_def h3_def h2_def h1_def step_h_def Let_def by simp
  have e1: "ext n h h1" and m1: "month_refs_fresh n h1 (byMonthA L)"
    using L m by (simp_all add: h1_def ext_add_to_agg mrf_add_to_agg)
  have e2: "ext n h1 h2" and m2: "month_refs_fresh n h2 (byMonthA L)"
    using L m1 by (auto simp: h2_def ext_hupdate ext_refl mrf_hupdate_other split: option.splits hobj.splits)
  have n2: "n \<le> length h2" using e1 e2 n by (simp add: ext_def)
  have e3: "ext n h2 h3" and m3: "month_refs_fresh n h3 (byMonthA L)"
  proof -
    let ?h' = "fst (halloc h2 (ExpObj \<lparr>exp_amount = amount t, exp_description = description t,
                                                      exp_date = date t\<rparr>))"
    have a: "ext n h2 ?h'" using n2 by (rule ext_halloc)
    have b: "month_refs_fresh n ?h' (byMonthA L)" using m2 by (rule mrf_halloc_other) simp
    have c: "ext n ?h' (hupdate ?h' (expensesA L) obj)" for obj using L by (simp add: ext_hupdate)
    show "ext n h2 h3"
      using a ext_trans[OF a c] by (auto simp: h3_def split_def Let_def ext_refl split: option.splits hobj.splits)
    show "month_refs_fresh n h3 (byMonthA L)"
      using b m2 by (auto simp: h3_def split_def Let_def mrf_hupdate_other split: option.splits hobj.splits)
  qed
  have n3: "n \<le> length h3" using e3 n2 by (simp add: ext_def)
  have e4: "ext n h3 h4" and m4: "month_refs_fresh n h4 (byMonthA L)"
  proof -
    let ?h' = "fst (halloc h3 (AggObj \<lparr>income = 0, expense = 0\<rparr>))"
    have a: "ext n h3 ?h'" using n3 by (rule ext_halloc)
    have b: "month_refs_fresh n ?h' (byMonthA L)" using m3 by (rule mrf_halloc_other) simp
    have c: "ext n ?h' (hupdate ?h' (byMonthA L) obj)" for obj using L by (simp add: ext_hupdate)
    show "ext n h3 h4"
      using a ext_trans[OF a c] by (auto simp: h4_def split_def Let_def ext_refl split: option.splits hobj.splits)
    have d: "month_refs_fresh n (hupdate ?h' (byMonthA L) (MonthMap (mm @ [(month_key t, snd (halloc h3 (AggObj \<lparr>income = 0, expense = 0\<rparr>)))]))) (byMonthA L)"
      if "hget h3 (byMonthA L) = Some (MonthMap mm)" for mm
    proof (rule mrf_hupdate_map)
      from that m3 have "list_all (\<lambda>kv. n \<le> snd kv) mm" by (simp add: month_refs_fresh_def)
      then show "list_all (\<lambda>kv. n \<le> snd kv) (mm @ [(month_key t, snd (halloc h3 (AggObj \<lparr>income = 0, expense = 0\<rparr>)))])"
        using n3 by (simp add: snd_halloc)
      show "month_refs_fresh n ?h' (byMonthA L)" by (rule b)
    qed
    show "month_refs_fresh n h4 (byMonthA L)"
      using d m3 by (auto simp: h4_def split_def Let_def split: option.splits hobj.splits)
  qed
  have e5: "ext n h4 h5" and m5: "month_refs_fresh n h5 (byMonthA L)"
  proof -
    show "ext n h4 h5"
      using mrf_lookup[OF m4]
      by (auto simp: h5_def ext_refl ext_add_to_agg split: option.splits hobj.splits)
    show "month_refs_fresh n h5 (byMonthA L)"
      using m4 by (auto simp: h5_def mrf_add_to_agg split: option.splits hobj.splits)
  qed
  have e03: "ext n h h3" using e1 e2 e3 by (blast intro: ext_trans)
  have e05: "ext n h h5" using e03 e4 e5 by (blast intro: ext_trans)
  show ?thesis using s e03 e05 m3 m5 by simp
qed

lemma loop_h_frame:
  assumes L: "n \<le> sumsA L" "n \<le> byCategoryA L" "n \<le> expensesA L" "n \<le> byMonthA L"
  shows "n \<le> length h \<Longrightarrow> month_refs_fresh n h (byMonthA L) \<Longrightarrow>
         ext n h (fst (loop_h L h rs)) \<and> month_refs_fresh n (fst (loop_h L h rs)) (byMonthA L)"
proof (induction rs arbitrary: h)
  case Nil
  then show ?case by (simp add: ext_refl)
next
  case (Cons r rs)
  show ?case
  proof (cases "\<exists>t. hget h r = Some (TxObj t)")
    case True
    then obtain t where t: "hget h r = Some (TxObj t)" by blast
    from step_h_frame[OF Cons.prems(1) L Cons.prems(2), of t]
    have s: "ext n h (step_h L h t)" "month_refs_fresh n (step_h L h t) (byMonthA L)" by auto
    from s(1) Cons.prems(1) have "n \<le> length (step_h L h t)" by (rule length_ext)
    from Cons.IH[OF this s(2)] s(1) t show ?thesis
      by (auto intro: ext_trans)
  next
    case False
    with Cons.prems show ?thesis
      by (auto simp: ext_refl split: option.splits hobj.splits)
  qed
qed

lemma init_h_frame:
  assumes "n \<le> length h0" and "init_h h0 = (h, L)"
  shows "ext n h0 h \<and> n \<le> sumsA L \<and> n \<le> byCategoryA L \<and> n \<le> expensesA L \<and> n \<le> byMonthA L \<and>
         month_refs_fresh n h (byMonthA L)"
  using assms
  by (auto simp: init_h_def halloc_def ext_def month_refs_fresh_def hget_def Let_def nth_append)

lemma top5_h_frame:
  assumes "n \<le> length h" and "n \<le> expensesA L"
  shows "ext n h (fst (top5_h L h))"
proof -
  let ?h1 = "hupdate h (expensesA L)
                 (RefArray (sort_by (\<lambda>x y. exp_amount (exp_at h y) - exp_amount (exp_at h x))
                                    (refs_at h (expensesA L))))"
  have a: "ext n h ?h1" using assms(2) by (rule ext_hupdate)
  then have "n \<le> length ?h1" using assms(1) by (rule length_ext)
  then have "ext n ?h1 (fst (halloc ?h1 (RefArray (take 5 (refs_at ?h1 (expensesA L))))))"
    by (rule ext_halloc)
  with a show ?thesis by (simp add: top5_h_def Let_def ext_trans)
qed

lemma trends_h_frame:
  fixes h :: "'s heap"
  assumes "n \<le> length h"
  shows "ext n h (fst (trends_h lc L h))"
proof -
  define mm where "mm = (case hget h (byMonthA L) of Some (MonthMap mm) \<Rightarrow> mm | _ \<Rightarrow> [])"
  define h1 where "h1 = fst (halloc_all h (map (\<lambda>(k, a). EntryArr k a) mm))"
  define entries where "entries = snd (halloc_all h (map (\<lambda>(k, a). EntryArr k a) mm))"
  define h2 where "h2 = fst (halloc h1 (RefArray entries))"
  define entriesA where "entriesA = snd (halloc h1 (RefArray entries))"
  define h3 where "h3 = hupdate h2 entriesA
                 (RefArray (sort_by (\<lambda>x y. lc (entry_key h2 x) (entry_key h2 y))
                                    (refs_at h2 entriesA)))"
  define objs :: "'s hobj list" where "objs = map (\<lambda>e. TrendObj \<lparr>month = entry_key h3 e,
                                   trend_income = round2 (income (agg_at h3 (entry_val h3 e))),
                                   trend_expense = round2 (expense (agg_at h3 (entry_val h3 e)))\<rparr>)
                  (refs_at h3 entriesA)"
  define h4 where "h4 = fst (halloc_all h3 objs)"
  define trends where "trends = snd (halloc_all h3 objs)"
  have t: "trends_h lc L h = halloc h4 (RefArray trends)"
    unfolding trends_h_def Let_def split_def h4_def trends_def objs_def h3_def entriesA_def h2_def
      entries_def h1_def mm_def by simp
  have e1: "ext n h h1" unfolding h1_def using assms by (rule ext_halloc_all)
  then have n1: "n \<le> length h1" using assms by (rule length_ext)
  then have e2: "ext n h1 h2" unfolding h2_def by (rule ext_halloc)
  then have n2: "n \<le> length h2" using n1 by (rule length_ext)
  have "n \<le> entriesA" using n1 by (simp add: entriesA_def snd_halloc)
  then have e3: "ext n h2 h3" unfolding h3_def by (rule ext_hupdate)
  then have n3: "n \<le> length h3" using n2 by (rule length_ext)
  then have e4: "ext n h3 h4" unfolding h4_def by (rule ext_halloc_all)
  then have n4: "n \<le> length h4" using n3 by (rule length_ext)
  then have e5: "ext n h4 (fst (halloc h4 (RefArray trends)))" by (rule ext_halloc)
  from e1 e2 e3 e4 e5 show ?thesis unfolding t by (blast intro: ext_trans)
qed

lemma report_h_frame:
  fixes h :: "'s heap"
  assumes "n \<le> length h"
  shows "ext n h (fst (report_h L h sid ta top5A trendsA pa))"
proof -
  define obj1 :: "'s hobj" where "obj1 = CatObj (map_option round2 \<circ>
                        (case hget h (byCategoryA L) of Some (CatObj m) \<Rightarrow> m | _ \<Rightarrow> Map.empty))"
  define h1 where "h1 = fst (halloc h obj1)"
  define objs :: "'s hobj list" where "objs = map (\<lambda>e. ExpObj ((exp_at h1 e)\<lparr>exp_amount := round2 (exp_amount (exp_at h1 e))\<rparr>))
                  (refs_at h1 top5A)"
  define h2 where "h2 = fst (halloc_all h1 objs)"
  define h3 where "h3 = fst (halloc h2 (RefArray (snd (halloc_all h1 objs))))"
  have "\<exists>obj. report_h L h sid ta top5A trendsA pa = halloc h3 obj"
    unfolding report_h_def Let_def split_def h3_def h2_def objs_def h1_def obj1_def by blast
  then obtain obj where t: "report_h L h sid ta top5A trendsA pa = halloc h3 obj" by blast
  have e1: "ext n h h1" unfolding h1_def using assms by (rule ext_halloc)
  then have n1: "n \<le> length h1" using assms by (rule length_ext)
  then have e2: "ext n h1 h2" unfolding h2_def by (rule ext_halloc_all)
  then have n2: "n \<le> length h2" using n1 by (rule length_ext)
  then have e3: "ext n h2 h3" unfolding h3_def by (rule ext_halloc)
  then have n3: "n \<le> length h3" using n2 by (rule length_ext)
  then have e4: "ext n h3 (fst (halloc h3 obj))" by (rule ext_halloc)
  from e1 e2 e3 e4 show ?thesis unfolding t by (blast intro: ext_trans)
qed

lemma computeAnalytics_h_ext:
  "ext (length h0) h0 (fst (computeAnalytics_h lc h0 sid ta pa))"
proof (cases "\<exists>txrefs. hget h0 ta = Some (RefArray txrefs)")
  case False
  then show ?thesis
    by (auto simp: computeAnalytics_h_def ext_refl split: option.splits hobj.splits)
next
  case True
  then obtain txrefs where tx: "hget h0 ta = Some (RefArray txrefs)" by blast
  let ?n = "length h0"
  obtain h1 L where i: "init_h h0 = (h1, L)" by (cases "init_h h0")
  from init_h_frame[OF _ i, of ?n] have e1: "ext ?n h0 h1"
    and L: "?n \<le> sumsA L" "?n \<le> byCategoryA L" "?n \<le> expensesA L" "?n \<le> byMonthA L"
    and m1: "month_refs_fresh ?n h1 (byMonthA L)" by auto
  have n1: "?n \<le> length h1" using e1 by (simp add: ext_def)
  obtain h2 ok where l: "loop_h L h1 txrefs = (h2, ok)" by (cases "loop_h L h1 txrefs")
  from loop_h_frame[OF L n1 m1, of txrefs] l have e2: "ext ?n h1 h2" by simp
  have e02: "ext ?n h0 h2" using e1 e2 by (rule ext_trans)
  show ?thesis
  proof (cases ok)
    case False
    with tx i l e02 show ?thesis by (simp add: computeAnalytics_h_def)
  next
    case True
    have n2: "?n \<le> length h2" using e02 by (simp add: ext_def)
    obtain h3 top5A where t: "top5_h L h2 = (h3, top5A)" by (cases "top5_h L h2")
    from top5_h_frame[OF n2 L(3)] t have e3: "ext ?n h2 h3" by simp
    then have n3: "?n \<le> length h3" using n2 by (rule length_ext)
    obtain h4 trendsA where r: "trends_h lc L h3 = (h4, trendsA)" by (cases "trends_h lc L h3")
    from trends_h_frame[OF n3, of lc L] r have e4: "ext ?n h3 h4" by simp
    then have n4: "?n \<le> length h4" using n3 by (rule length_ext)
    obtain h5 reportA where p: "report_h L h4 sid ta top5A trendsA pa = (h5, reportA)"
      by (cases "report_h L h4 sid ta top5A trendsA pa")
    from report_h_frame[OF n4, of L sid ta top5A trendsA pa] p have e5: "ext ?n h4 h5" by simp
    have "ext ?n h0 h5" using e02 e3 e4 e5 by (blast intro: ext_trans)
    with tx i l True t r p show ?thesis by (simp add: computeAnalytics_h_def)
  qed
qed

text \<open>
  Claim C10. Whatever the store holds before the call, every cell of it holds the same
  after \<open>computeAnalytics\<close>: the \<open>transactions\<close> array, each transaction in it and
  \<open>parsingSummary\<close> are unchanged. All writes go to cells the call has allocated itself:
  its accumulators, the aggregates it keeps in \<open>byMonth\<close>, and the arrays it sorts
  (\<open>expenses\<close>, built from fresh objects, and the array of the entries of \<open>byMonth\<close>).
\<close>

theorem computeAnalytics_keeps_inputs:
  assumes "computeAnalytics_h lc h0 sid transactionsA parsingSummaryA = (h', r)"
  shows "\<forall>a < length h0. hget h' a = hget h0 a"
proof -
  from computeAnalytics_h_ext[of h0 lc sid transactionsA parsingSummaryA] assms
  have e: "length h0 \<le> length h'" "take (length h0) h' = h0" by (simp_all add: ext_def)
  show ?thesis
  proof (intro allI impI)
    fix a assume a: "a < length h0"
    have "h' ! a = take (length h0) h' ! a" using a by simp
    also have "\<dots> = h0 ! a" by (simp only: e(2))
    finally show "hget h' a = hget h0 a" using a e(1) by (simp add: hget_def)
  qed
qed

lemma computeAnalytics_h_reports:
  assumes "hget h0 ta = Some (RefArray txrefs)"
    and "snd (loop_h (snd (init_h h0)) (fst (init_h h0)) txrefs)"
  shows "snd (computeAnalytics_h lc h0 sid ta pa) \<noteq> None"
  using assms
  by (auto simp: computeAnalytics_h_def split_def Let_def)

lemma example_store_loop:
  "snd (loop_h (snd (init_h example_store)) (fst (init_h example_store)) [0, 1, 2, 1])"
  by code_simp

theorem computeAnalytics_keeps_inputs_witness:
  "snd (computeAnalytics_h codeunit_compare example_store ''S1'' 3 4) \<noteq> None \<and>
   hget (fst (computeAnalytics_h codeunit_compare example_store ''S1'' 3 4)) 3 = Some (RefArray [0, 1, 2, 1]) \<and>
   hget (fst (computeAnalytics_h codeunit_compare example_store ''S1'' 3 4)) 1 =
     Some (TxObj (example_tx 20 ''debit'' (Some ''2024-01-01''))) \<and>
   hget (fst (computeAnalytics_h codeunit_compare example_store ''S1'' 3 4)) 4 = Some (SummaryObj ())"
proof -
  have a: "hget example_store 3 = Some (RefArray [0, 1, 2, 1])"
    by (simp add: hget_def example_store_def)
  have r: "snd (computeAnalytics_h codeunit_compare example_store ''S1'' 3 4) \<noteq> None"
    using a example_store_loop by (rule computeAnalytics_h_reports)
  have e: "computeAnalytics_h codeunit_compare example_store ''S1'' 3 4 =
      (fst (computeAnalytics_h codeunit_compare example_store ''S1'' 3 4),
       snd (computeAnalytics_h codeunit_compare example_store ''S1'' 3 4))" by simp
  have l: "length example_store = 5" by (simp add: example_store_def)
  from computeAnalytics_keeps_inputs [OF e] l
  have k: "hget (fst (computeAnalytics_h codeunit_compare example_store ''S1'' 3 4)) a = hget example_store a"
    if "a < 5" for a using that by simp
  have "hget example_store 1 = Some (TxObj (example_tx 20 ''debit'' (Some ''2024-01-01'')))"
    and "hget example_store 4 = Some (SummaryObj ())"
    by (simp_all add: hget_def example_store_def)
  with k[of 3] k[of 1] k[of 4] a r show ?thesis by simp
qed


section \<open>The two models of the aggregator agree\<close>

text \<open>
  The store model runs the same computation as \<open>computeAnalytics\<close>: called with the address
  of an array of transaction objects and the address of a summary, it returns the address of
  a report, and that report, with the objects and arrays it refers to read out of the final
  store, is the report the pure model computes from the transactions and the summary. The
  proof follows the function: the four locals, one step of the loop in its stages, the loop,
  the sort of \<open>expenses\<close>, the sorted entries of \<open>byMonth\<close>, the report object.
\<close>

lemma is_agg_iff: "is_agg h a \<longleftrightarrow> (\<exists>s. hget h a = Some (AggObj s))"
  by (auto simp: is_agg_def split: option.splits hobj.splits)

lemma is_cat_iff: "is_cat h a \<longleftrightarrow> (\<exists>m. hget h a = Some (CatObj m))"
  by (auto simp: is_cat_def split: option.splits hobj.splits)

lemma is_refs_iff: "is_refs h a \<longleftrightarrow> (\<exists>rs. hget h a = Some (RefArray rs))"
  by (auto simp: is_refs_def split: option.splits hobj.splits)

lemma is_exp_iff: "is_exp h a \<longleftrightarrow> (\<exists>e. hget h a = Some (ExpObj e))"
  by (auto simp: is_exp_def split: option.splits hobj.splits)

lemma is_month_iff: "is_month h a \<longleftrightarrow> (\<exists>mm. hget h a = Some (MonthMap mm))"
  by (auto simp: is_month_def split: option.splits hobj.splits)

lemma at_simps:
  "hget h a = Some (AggObj s) \<Longrightarrow> agg_at h a = s"
  "hget h a = Some (CatObj m) \<Longrightarrow> cat_at h a = m"
  "hget h a = Some (RefArray rs) \<Longrightarrow> refs_at h a = rs"
  "hget h a = Some (ExpObj e) \<Longrightarrow> exp_at h a = e"
  "hget h a = Some (MonthMap mm) \<Longrightarrow> month_at h a = mm"
  by (simp_all add: agg_at_def cat_at_def refs_at_def exp_at_def month_at_def)

lemma hget_lt: "hget h a = Some x \<Longrightarrow> a < length h"
  by (simp add: hget_def split: if_splits)

lemma hget_add_to_agg:
  "hget h a = Some (AggObj s) \<Longrightarrow>
     hget (add_to_agg h a ty amt) b =
       (if b = a then Some (AggObj (add_amount ty amt s)) else hget h b)"
  by (auto simp: add_to_agg_def hget_hupdate dest: hget_lt)

text \<open>The shape of a well-formed store.\<close>

lemma wf_localsD:
  assumes "wf_locals h L"
  shows "\<exists>s m es mm.
    hget h (sumsA L) = Some (AggObj s) \<and>
    hget h (byCategoryA L) = Some (CatObj m) \<and>
    hget h (expensesA L) = Some (RefArray es) \<and>
    hget h (byMonthA L) = Some (MonthMap mm) \<and>
    (\<forall>e \<in> set es. \<exists>x. hget h e = Some (ExpObj x)) \<and>
    distinct (map snd mm) \<and>
    (\<forall>kv \<in> set mm. snd kv \<noteq> sumsA L \<and> (\<exists>x. hget h (snd kv) = Some (AggObj x)))"
proof -
  from assms obtain s m es mm where
    1: "hget h (sumsA L) = Some (AggObj s)" and 2: "hget h (byCategoryA L) = Some (CatObj m)"
    and 3: "hget h (expensesA L) = Some (RefArray es)" and 4: "hget h (byMonthA L) = Some (MonthMap mm)"
    by (auto simp: wf_locals_def is_agg_iff is_cat_iff is_refs_iff is_month_iff)
  from assms have 5: "list_all (is_exp h) es" "distinct (map snd mm)"
    "list_all (\<lambda>kv. snd kv \<noteq> sumsA L \<and> is_agg h (snd kv)) mm"
    by (simp_all add: wf_locals_def at_simps(3)[OF 3] at_simps(5)[OF 4])
  from 5 have "\<forall>e \<in> set es. \<exists>x. hget h e = Some (ExpObj x)"
    "\<forall>kv \<in> set mm. snd kv \<noteq> sumsA L \<and> (\<exists>x. hget h (snd kv) = Some (AggObj x))"
    by (auto simp: list_all_iff is_exp_iff is_agg_iff)
  with 1 2 3 4 5(2) show ?thesis by blast
qed

lemma wf_localsI:
  assumes "hget h (sumsA L) = Some (AggObj s)"
    "hget h (byCategoryA L) = Some (CatObj m)"
    "hget h (expensesA L) = Some (RefArray es)"
    "hget h (byMonthA L) = Some (MonthMap mm)"
    "\<forall>e \<in> set es. \<exists>x. hget h e = Some (ExpObj x)"
    "distinct (map snd mm)"
    "\<forall>kv \<in> set mm. snd kv \<noteq> sumsA L \<and> (\<exists>x. hget h (snd kv) = Some (AggObj x))"
  shows "wf_locals h L"
  using assms(5-7)
  by (auto simp: wf_locals_def is_agg_iff is_cat_iff is_refs_iff is_month_iff is_exp_iff
      list_all_iff at_simps(3)[OF assms(3)] at_simps(5)[OF assms(4)] assms(1-4))

lemma accum_ofI:
  assumes "hget h (sumsA L) = Some (AggObj s)"
    "hget h (byCategoryA L) = Some (CatObj m)"
    "hget h (expensesA L) = Some (RefArray es)"
    "hget h (byMonthA L) = Some (MonthMap mm)"
  shows "accum_of h L =
     \<lparr> acc_sums = s, acc_byCategory = m, expenses = map (exp_at h) es,
       byMonth = map (\<lambda>kv. (fst kv, agg_at h (snd kv))) mm \<rparr>"
  by (simp add: accum_of_def at_simps(1)[OF assms(1)] at_simps(2)[OF assms(2)]
      at_simps(3)[OF assms(3)] at_simps(5)[OF assms(4)])

text \<open>Stage 1: the sums.\<close>

lemma stage_sums:
  assumes w: "wf_locals h L"
  shows "wf_locals (add_to_agg h (sumsA L) ty amt) L \<and>
         accum_of (add_to_agg h (sumsA L) ty amt) L =
           (accum_of h L)\<lparr>acc_sums := add_amount ty amt (acc_sums (accum_of h L))\<rparr>"
proof -
  define h1 where "h1 = add_to_agg h (sumsA L) ty amt"
  from wf_localsD[OF w] obtain s m es mm where c:
    "hget h (sumsA L) = Some (AggObj s)"
    "hget h (byCategoryA L) = Some (CatObj m)"
    "hget h (expensesA L) = Some (RefArray es)"
    "hget h (byMonthA L) = Some (MonthMap mm)"
    and ex: "\<forall>e \<in> set es. \<exists>x. hget h e = Some (ExpObj x)"
    and di: "distinct (map snd mm)"
    and ag: "\<forall>kv \<in> set mm. snd kv \<noteq> sumsA L \<and> (\<exists>x. hget h (snd kv) = Some (AggObj x))"
    by blast
  have g: "hget h1 b = (if b = sumsA L then Some (AggObj (add_amount ty amt s)) else hget h b)" for b
    unfolding h1_def by (rule hget_add_to_agg[OF c(1)])
  have c1: "hget h1 (sumsA L) = Some (AggObj (add_amount ty amt s))"
    "hget h1 (byCategoryA L) = Some (CatObj m)"
    "hget h1 (expensesA L) = Some (RefArray es)"
    "hget h1 (byMonthA L) = Some (MonthMap mm)"
    using c by (auto simp: g)
  have ex1: "\<forall>e \<in> set es. \<exists>x. hget h1 e = Some (ExpObj x)"
    and ex1': "\<forall>e \<in> set es. exp_at h1 e = exp_at h e"
    using ex c(1) by (auto simp: g exp_at_def)
  have ag1: "\<forall>kv \<in> set mm. snd kv \<noteq> sumsA L \<and> (\<exists>x. hget h1 (snd kv) = Some (AggObj x))"
    and ag1': "\<forall>kv \<in> set mm. agg_at h1 (snd kv) = agg_at h (snd kv)"
    using ag by (auto simp: g agg_at_def)
  have w1: "wf_locals h1 L"
    by (rule wf_localsI[OF c1 ex1 di ag1])
  have "accum_of h1 L = (accum_of h L)\<lparr>acc_sums := add_amount ty amt (acc_sums (accum_of h L))\<rparr>"
    unfolding accum_ofI[OF c1] accum_ofI[OF c]
    using ex1' ag1' by auto
  with w1 show ?thesis by (simp add: h1_def)
qed

lemma hget_at_length: "hget h (length h) = None"
  by (simp add: hget_def)

text \<open>Stage 2: the category.\<close>

lemma stage_category:
  assumes w: "wf_locals h L"
  shows "wf_locals
           (case hget h (byCategoryA L) of
              Some (CatObj m) \<Rightarrow>
                hupdate h (byCategoryA L)
                  (CatObj (m(cat \<mapsto> (case m cat of None \<Rightarrow> 0 | Some v \<Rightarrow> v) + amt)))
            | _ \<Rightarrow> h) L \<and>
         accum_of
           (case hget h (byCategoryA L) of
              Some (CatObj m) \<Rightarrow>
                hupdate h (byCategoryA L)
                  (CatObj (m(cat \<mapsto> (case m cat of None \<Rightarrow> 0 | Some v \<Rightarrow> v) + amt)))
            | _ \<Rightarrow> h) L =
           (accum_of h L)\<lparr>acc_byCategory :=
              (acc_byCategory (accum_of h L))(cat \<mapsto>
                 (case acc_byCategory (accum_of h L) cat of None \<Rightarrow> 0 | Some v \<Rightarrow> v) + amt)\<rparr>"
proof -
  from wf_localsD[OF w] obtain s m es mm where c:
    "hget h (sumsA L) = Some (AggObj s)"
    "hget h (byCategoryA L) = Some (CatObj m)"
    "hget h (expensesA L) = Some (RefArray es)"
    "hget h (byMonthA L) = Some (MonthMap mm)"
    and ex: "\<forall>e \<in> set es. \<exists>x. hget h e = Some (ExpObj x)"
    and di: "distinct (map snd mm)"
    and ag: "\<forall>kv \<in> set mm. snd kv \<noteq> sumsA L \<and> (\<exists>x. hget h (snd kv) = Some (AggObj x))"
    by blast
  define m' where "m' = m(cat \<mapsto> (case m cat of None \<Rightarrow> 0 | Some v \<Rightarrow> v) + amt)"
  define h2 where "h2 = hupdate h (byCategoryA L) (CatObj m')"
  have lt: "byCategoryA L < length h" using c(2) by (rule hget_lt)
  have g: "hget h2 b = (if b = byCategoryA L then Some (CatObj m') else hget h b)" for b
    using lt by (simp add: h2_def hget_hupdate)
  have c2: "hget h2 (sumsA L) = Some (AggObj s)"
    "hget h2 (byCategoryA L) = Some (CatObj m')"
    "hget h2 (expensesA L) = Some (RefArray es)"
    "hget h2 (byMonthA L) = Some (MonthMap mm)"
    using c by (auto simp: g)
  have ex2: "\<forall>e \<in> set es. \<exists>x. hget h2 e = Some (ExpObj x)"
    and ex2': "\<forall>e \<in> set es. exp_at h2 e = exp_at h e"
    using ex c(2) by (auto simp: g exp_at_def)
  have ag2: "\<forall>kv \<in> set mm. snd kv \<noteq> sumsA L \<and> (\<exists>x. hget h2 (snd kv) = Some (AggObj x))"
    and ag2': "\<forall>kv \<in> set mm. agg_at h2 (snd kv) = agg_at h (snd kv)"
    using ag c(2) by (auto simp: g agg_at_def)
  have w2: "wf_locals h2 L"
    by (rule wf_localsI[OF c2 ex2 di ag2])
  have a2: "accum_of h2 L = (accum_of h L)\<lparr>acc_byCategory :=
              (acc_byCategory (accum_of h L))(cat \<mapsto>
                 (case acc_byCategory (accum_of h L) cat of None \<Rightarrow> 0 | Some v \<Rightarrow> v) + amt)\<rparr>"
    unfolding accum_ofI[OF c2] accum_ofI[OF c]
    using ex2' ag2' by (auto simp: m'_def)
  show ?thesis using w2 a2 by (simp add: c(2) h2_def m'_def)
qed

text \<open>Stage 3: the expenses.\<close>

lemma stage_expense:
  assumes w: "wf_locals h L"
  shows "wf_locals
           (let (h', e) = halloc h (ExpObj e0)
            in (case hget h' (expensesA L) of
                  Some (RefArray es) \<Rightarrow> hupdate h' (expensesA L) (RefArray (es @ [e]))
                | _ \<Rightarrow> h')) L \<and>
         accum_of
           (let (h', e) = halloc h (ExpObj e0)
            in (case hget h' (expensesA L) of
                  Some (RefArray es) \<Rightarrow> hupdate h' (expensesA L) (RefArray (es @ [e]))
                | _ \<Rightarrow> h')) L =
           (accum_of h L)\<lparr>expenses := expenses (accum_of h L) @ [e0]\<rparr>"
proof -
  from wf_localsD[OF w] obtain s m es mm where c:
    "hget h (sumsA L) = Some (AggObj s)"
    "hget h (byCategoryA L) = Some (CatObj m)"
    "hget h (expensesA L) = Some (RefArray es)"
    "hget h (byMonthA L) = Some (MonthMap mm)"
    and ex: "\<forall>e \<in> set es. \<exists>x. hget h e = Some (ExpObj x)"
    and di: "distinct (map snd mm)"
    and ag: "\<forall>kv \<in> set mm. snd kv \<noteq> sumsA L \<and> (\<exists>x. hget h (snd kv) = Some (AggObj x))"
    by blast
  define h' where "h' = fst (halloc h (ExpObj e0 :: 'a hobj))"
  define h3 where "h3 = hupdate h' (expensesA L) (RefArray (es @ [length h]))"
  have lt: "sumsA L < length h" "byCategoryA L < length h" "expensesA L < length h" "byMonthA L < length h"
    using c by (auto dest: hget_lt)
  have l': "length h' = Suc (length h)" by (simp add: h'_def halloc_def)
  have g': "hget h' b = (if b = length h then Some (ExpObj e0) else hget h b)" for b
    unfolding h'_def by (rule hget_halloc)
  have g: "hget h3 b = (if b = expensesA L then Some (RefArray (es @ [length h]))
                        else if b = length h then Some (ExpObj e0) else hget h b)" for b
    using lt l' by (simp add: h3_def hget_hupdate g')
  have c3: "hget h3 (sumsA L) = Some (AggObj s)"
    "hget h3 (byCategoryA L) = Some (CatObj m)"
    "hget h3 (expensesA L) = Some (RefArray (es @ [length h]))"
    "hget h3 (byMonthA L) = Some (MonthMap mm)"
    using c lt by (auto simp: g)
  have old: "\<forall>e \<in> set es. e \<noteq> expensesA L \<and> e \<noteq> length h"
    using ex c(3) hget_at_length[of h] by force
  have ex3: "\<forall>e \<in> set (es @ [length h]). \<exists>x. hget h3 e = Some (ExpObj x)"
    using ex old lt by (auto simp: g)
  have ex3': "map (exp_at h3) (es @ [length h]) = map (exp_at h) es @ [e0]"
    using old lt by (auto simp: g exp_at_def)
  have agl: "\<forall>kv \<in> set mm. snd kv \<noteq> expensesA L \<and> snd kv \<noteq> length h"
    using ag c(3) hget_at_length[of h] by force
  have ag3: "\<forall>kv \<in> set mm. snd kv \<noteq> sumsA L \<and> (\<exists>x. hget h3 (snd kv) = Some (AggObj x))"
    and ag3': "\<forall>kv \<in> set mm. agg_at h3 (snd kv) = agg_at h (snd kv)"
    using ag agl by (auto simp: g agg_at_def)
  have w3: "wf_locals h3 L"
    by (rule wf_localsI[OF c3 ex3 di ag3])
  have a3: "accum_of h3 L = (accum_of h L)\<lparr>expenses := expenses (accum_of h L) @ [e0]\<rparr>"
    unfolding accum_ofI[OF c3] accum_ofI[OF c]
    using ex3' ag3' by auto
  have e: "(let (h', e) = halloc h (ExpObj e0)
            in (case hget h' (expensesA L) of
                  Some (RefArray es) \<Rightarrow> hupdate h' (expensesA L) (RefArray (es @ [e]))
                | _ \<Rightarrow> h')) = h3"
    using c(3) lt by (simp add: split_def Let_def h3_def h'_def[symmetric] g' snd_halloc)
  show ?thesis unfolding e using w3 a3 by simp
qed

lemma length_halloc: "length (fst (halloc h obj)) = Suc (length h)"
  by (simp add: halloc_def)

lemma month_update_append:
  "m \<notin> fst ` set kvs \<Longrightarrow> month_update m f kvs = kvs @ [(m, f \<lparr>income = 0, expense = 0\<rparr>)]"
  by (induction m f kvs rule: month_update.induct) auto

lemma month_update_found:
  assumes "distinct (map snd mm)" and "map_of mm m = Some agg"
    and "\<forall>kv \<in> set mm. v' (snd kv) = (if snd kv = agg then f (v (snd kv)) else v (snd kv))"
  shows "map (\<lambda>kv. (fst kv, v' (snd kv))) mm = month_update m f (map (\<lambda>kv. (fst kv, v (snd kv))) mm)"
  using assms
proof (induction mm)
  case Nil
  then show ?case by simp
next
  case (Cons kv mm)
  obtain k a where kv: "kv = (k, a)" by (cases kv)
  show ?case
  proof (cases "k = m")
    case True
    with Cons.prems kv have a: "a = agg" by simp
    have "\<forall>x \<in> set mm. snd x \<noteq> agg" using Cons.prems(1) kv a by (auto simp: image_iff)
    with Cons.prems(3) have "map (\<lambda>kv. (fst kv, v' (snd kv))) mm = map (\<lambda>kv. (fst kv, v (snd kv))) mm"
      by auto
    with Cons.prems(3) kv a True show ?thesis by simp
  next
    case False
    with Cons.prems kv have m: "map_of mm m = Some agg" by simp
    then have "agg \<in> snd ` set mm" by (force dest: map_of_SomeD simp: image_iff)
    with Cons.prems(1) kv have "a \<noteq> agg" by auto
    moreover from Cons.prems(1) have "distinct (map snd mm)" by simp
    ultimately show ?thesis
      using Cons.IH[OF _ m] Cons.prems(3) kv False by simp
  qed
qed

text \<open>Stages 4 and 5: the month.\<close>

lemma stage_month:
  assumes w: "wf_locals h L"
  shows "wf_locals
           (let h4 = (case hget h (byMonthA L) of
                        Some (MonthMap mm) \<Rightarrow>
                          if map_of mm m = None
                          then let (h', a) = halloc h (AggObj \<lparr>income = 0, expense = 0\<rparr>)
                               in hupdate h' (byMonthA L) (MonthMap (mm @ [(m, a)]))
                          else h
                      | _ \<Rightarrow> h)
            in (case hget h4 (byMonthA L) of
                  Some (MonthMap mm) \<Rightarrow>
                    (case map_of mm m of
                       Some agg \<Rightarrow> add_to_agg h4 agg ty amt
                     | None \<Rightarrow> h4)
                | _ \<Rightarrow> h4)) L \<and>
         accum_of
           (let h4 = (case hget h (byMonthA L) of
                        Some (MonthMap mm) \<Rightarrow>
                          if map_of mm m = None
                          then let (h', a) = halloc h (AggObj \<lparr>income = 0, expense = 0\<rparr>)
                               in hupdate h' (byMonthA L) (MonthMap (mm @ [(m, a)]))
                          else h
                      | _ \<Rightarrow> h)
            in (case hget h4 (byMonthA L) of
                  Some (MonthMap mm) \<Rightarrow>
                    (case map_of mm m of
                       Some agg \<Rightarrow> add_to_agg h4 agg ty amt
                     | None \<Rightarrow> h4)
                | _ \<Rightarrow> h4)) L =
           (accum_of h L)\<lparr>byMonth := month_update m (add_amount ty amt) (byMonth (accum_of h L))\<rparr>"
proof -
  from wf_localsD[OF w] obtain s cm es mm where c:
    "hget h (sumsA L) = Some (AggObj s)"
    "hget h (byCategoryA L) = Some (CatObj cm)"
    "hget h (expensesA L) = Some (RefArray es)"
    "hget h (byMonthA L) = Some (MonthMap mm)"
    and ex: "\<forall>e \<in> set es. \<exists>x. hget h e = Some (ExpObj x)"
    and di: "distinct (map snd mm)"
    and ag: "\<forall>kv \<in> set mm. snd kv \<noteq> sumsA L \<and> (\<exists>x. hget h (snd kv) = Some (AggObj x))"
    by blast
  have lt: "sumsA L < length h" "byCategoryA L < length h" "expensesA L < length h" "byMonthA L < length h"
    using c by (auto dest: hget_lt)
  let ?zero = "\<lparr>income = 0, expense = 0\<rparr>"
  let ?f = "add_amount ty amt"
  \<comment> \<open>the store after stage 4, its month list, and the aggregate to add to\<close>
  define mm4 where "mm4 = (if map_of mm m = None then mm @ [(m, length h)] else mm)"
  define h4 where "h4 = (if map_of mm m = None
      then hupdate (fst (halloc h (AggObj ?zero :: 'a hobj))) (byMonthA L) (MonthMap mm4) else h)"
  have e4: "(case hget h (byMonthA L) of
                        Some (MonthMap mm) \<Rightarrow>
                          if map_of mm m = None
                          then let (h', a) = halloc h (AggObj \<lparr>income = 0, expense = 0\<rparr>)
                               in hupdate h' (byMonthA L) (MonthMap (mm @ [(m, a)]))
                          else h
                      | _ \<Rightarrow> h) = h4"
    by (simp add: c(4) h4_def mm4_def split_def Let_def snd_halloc)
  have g4: "hget h4 b = (if map_of mm m = None
                         then (if b = byMonthA L then Some (MonthMap mm4)
                               else if b = length h then Some (AggObj ?zero) else hget h b)
                         else hget h b)" for b
    using lt by (simp add: h4_def hget_hupdate hget_halloc length_halloc)
  have fresh: "\<forall>kv \<in> set mm. snd kv \<noteq> length h \<and> snd kv \<noteq> byMonthA L"
    using ag c(4) hget_at_length[of h] by force
  have efresh: "\<forall>e \<in> set es. e \<noteq> length h \<and> e \<noteq> byMonthA L"
    using ex c(4) hget_at_length[of h] by force
  have c4: "hget h4 (sumsA L) = Some (AggObj s)"
    "hget h4 (byCategoryA L) = Some (CatObj cm)"
    "hget h4 (expensesA L) = Some (RefArray es)"
    "hget h4 (byMonthA L) = Some (MonthMap mm4)"
    using c lt by (auto simp: g4 mm4_def)
  have di4: "distinct (map snd mm4)"
    using di fresh by (auto simp: mm4_def image_iff)
  have ag4: "\<forall>kv \<in> set mm4. snd kv \<noteq> sumsA L \<and> (\<exists>x. hget h4 (snd kv) = Some (AggObj x))"
    using ag fresh lt by (auto simp: g4 mm4_def)
  have v4: "map (\<lambda>kv. (fst kv, agg_at h4 (snd kv))) mm4 =
            (if map_of mm m = None then map (\<lambda>kv. (fst kv, agg_at h (snd kv))) mm @ [(m, ?zero)]
             else map (\<lambda>kv. (fst kv, agg_at h (snd kv))) mm)"
    using fresh lt by (auto simp: g4 mm4_def agg_at_def)
  have "\<exists>agg. map_of mm4 m = Some agg"
    by (cases "map_of mm m") (simp_all add: mm4_def map_add_def)
  then obtain agg where look: "map_of mm4 m = Some agg" ..
  then have "(m, agg) \<in> set mm4" by (rule map_of_SomeD)
  with ag4 obtain x where x: "hget h4 agg = Some (AggObj x)" and ns: "agg \<noteq> sumsA L" by force
  define h5 where "h5 = add_to_agg h4 agg ty amt"
  have e5: "(case hget h4 (byMonthA L) of
                  Some (MonthMap mm) \<Rightarrow>
                    (case map_of mm m of
                       Some agg \<Rightarrow> add_to_agg h4 agg ty amt
                     | None \<Rightarrow> h4)
                | _ \<Rightarrow> h4) = h5"
    by (simp add: c4(4) look h5_def)
  have g5: "hget h5 b = (if b = agg then Some (AggObj (?f x)) else hget h4 b)" for b
    unfolding h5_def by (rule hget_add_to_agg[OF x])
  have nl: "agg \<noteq> byCategoryA L" "agg \<noteq> expensesA L" "agg \<noteq> byMonthA L"
    using x c4 by auto
  have c5: "hget h5 (sumsA L) = Some (AggObj s)"
    "hget h5 (byCategoryA L) = Some (CatObj cm)"
    "hget h5 (expensesA L) = Some (RefArray es)"
    "hget h5 (byMonthA L) = Some (MonthMap mm4)"
    using c4 ns nl by (auto simp: g5)
  have ex4: "\<forall>e \<in> set es. \<exists>y. hget h4 e = Some (ExpObj y)"
    using ex efresh by (auto simp: g4)
  have ex5: "\<forall>e \<in> set es. \<exists>y. hget h5 e = Some (ExpObj y)"
    and ex5': "\<forall>e \<in> set es. exp_at h5 e = exp_at h e"
    using ex4 ex efresh x by (auto simp: g5 g4 exp_at_def)
  have ag5: "\<forall>kv \<in> set mm4. snd kv \<noteq> sumsA L \<and> (\<exists>y. hget h5 (snd kv) = Some (AggObj y))"
    using ag4 by (auto simp: g5)
  have w5: "wf_locals h5 L"
    by (rule wf_localsI[OF c5 ex5 di4 ag5])
  have upd: "\<forall>kv \<in> set mm4. agg_at h5 (snd kv) =
               (if snd kv = agg then ?f (agg_at h4 (snd kv)) else agg_at h4 (snd kv))"
    using x by (auto simp: g5 agg_at_def)
  have v5: "map (\<lambda>kv. (fst kv, agg_at h5 (snd kv))) mm4 =
            month_update m ?f (map (\<lambda>kv. (fst kv, agg_at h4 (snd kv))) mm4)"
    by (rule month_update_found[OF di4 look upd])
  have pure: "month_update m ?f (map (\<lambda>kv. (fst kv, agg_at h4 (snd kv))) mm4) =
              month_update m ?f (map (\<lambda>kv. (fst kv, agg_at h (snd kv))) mm)"
  proof (cases "map_of mm m")
    case None
    then have nk: "m \<notin> fst ` set (map (\<lambda>kv. (fst kv, agg_at h (snd kv))) mm)"
      by (force simp: map_of_eq_None_iff image_iff)
    have "month_update m ?f (map (\<lambda>kv. (fst kv, agg_at h (snd kv))) mm @ [(m, ?zero)]) =
          map (\<lambda>kv. (fst kv, agg_at h (snd kv))) mm @ [(m, ?f ?zero)]"
      using nk by (induction mm) auto
    then show ?thesis
      unfolding v4 using None month_update_append[OF nk, of ?f] by simp
  next
    case (Some a)
    then show ?thesis unfolding v4 by simp
  qed
  have a5: "accum_of h5 L =
      (accum_of h L)\<lparr>byMonth := month_update m ?f (byMonth (accum_of h L))\<rparr>"
    unfolding accum_ofI[OF c5] accum_ofI[OF c]
    using ex5' v5 pure by auto
  show ?thesis
    apply (unfold e4)
    apply (unfold Let_def)
    apply (unfold e5)
    apply (rule conjI[OF w5 a5])
    done
qed

lemma ext_hget: "ext n h h' \<Longrightarrow> a < n \<Longrightarrow> a < length h \<Longrightarrow> hget h' a = hget h a"
proof -
  assume e: "ext n h h'" and a: "a < n" "a < length h"
  from e have l: "length h \<le> length h'" and t: "take n h' = take n h" by (simp_all add: ext_def)
  have "h' ! a = take n h' ! a" using a by simp
  also have "\<dots> = take n h ! a" by (simp only: t)
  also have "\<dots> = h ! a" using a by simp
  finally show ?thesis using a l by (simp add: hget_def)
qed

text \<open>One step of the loop over the store is one step of the pure loop.\<close>

lemma step_h_accum:
  assumes w: "wf_locals h L"
  shows "wf_locals (step_h L h t) L \<and> accum_of (step_h L h t) L = analytics_step (accum_of h L) t"
proof -
  define h1 where "h1 = add_to_agg h (sumsA L) (ttype t) (amount t)"
  define h2 where "h2 = (case hget h1 (byCategoryA L) of
                  Some (CatObj m) \<Rightarrow>
                    hupdate h1 (byCategoryA L)
                      (CatObj (m(category_key t \<mapsto> (case m (category_key t) of None \<Rightarrow> 0 | Some v \<Rightarrow> v) + amount t)))
                | _ \<Rightarrow> h1)"
  define h3 where "h3 = (if ttype t = ''debit''
                then let (h', e) = halloc h2 (ExpObj \<lparr>exp_amount = amount t, exp_description = description t,
                                                      exp_date = date t\<rparr>)
                     in (case hget h' (expensesA L) of
                           Some (RefArray es) \<Rightarrow> hupdate h' (expensesA L) (RefArray (es @ [e]))
                         | _ \<Rightarrow> h')
                else h2)"
  define h5 where "h5 = (let h4 = (case hget h3 (byMonthA L) of
                          Some (MonthMap mm) \<Rightarrow>
                            if map_of mm (month_key t) = None
                            then let (h', a) = halloc h3 (AggObj \<lparr>income = 0, expense = 0\<rparr>)
                                 in hupdate h' (byMonthA L) (MonthMap (mm @ [(month_key t, a)]))
                            else h3
                        | _ \<Rightarrow> h3)
              in (case hget h4 (byMonthA L) of
                    Some (MonthMap mm) \<Rightarrow>
                      (case map_of mm (month_key t) of
                         Some agg \<Rightarrow> add_to_agg h4 agg (ttype t) (amount t)
                       | None \<Rightarrow> h4)
                  | _ \<Rightarrow> h4))"
  have s: "step_h L h t = (if month_key t \<noteq> [] then h5 else h3)"
    unfolding h5_def h3_def h2_def h1_def step_h_def Let_def by simp
  have s1: "wf_locals h1 L \<and> accum_of h1 L =
              (accum_of h L)\<lparr>acc_sums := add_amount (ttype t) (amount t) (acc_sums (accum_of h L))\<rparr>"
    unfolding h1_def by (rule stage_sums[OF w])
  have s2: "wf_locals h2 L \<and> accum_of h2 L =
              (accum_of h1 L)\<lparr>acc_byCategory :=
                 (acc_byCategory (accum_of h1 L))(category_key t \<mapsto>
                    (case acc_byCategory (accum_of h1 L) (category_key t) of None \<Rightarrow> 0 | Some v \<Rightarrow> v)
                      + amount t)\<rparr>"
    unfolding h2_def by (rule stage_category[OF conjunct1[OF s1]])
  have s3: "wf_locals h3 L \<and> accum_of h3 L =
              (accum_of h2 L)\<lparr>expenses :=
                 (if ttype t = ''debit''
                  then expenses (accum_of h2 L) @ [\<lparr>exp_amount = amount t, exp_description = description t,
                                                      exp_date = date t\<rparr>]
                  else expenses (accum_of h2 L))\<rparr>"
  proof (cases "ttype t = ''debit''")
    case True
    have "h3 = (let (h', e) = halloc h2 (ExpObj \<lparr>exp_amount = amount t, exp_description = description t,
                                                      exp_date = date t\<rparr>)
                     in (case hget h' (expensesA L) of
                           Some (RefArray es) \<Rightarrow> hupdate h' (expensesA L) (RefArray (es @ [e]))
                         | _ \<Rightarrow> h'))"
      unfolding h3_def by (rule if_P[OF True])
    with stage_expense[OF conjunct1[OF s2],
        of "\<lparr>exp_amount = amount t, exp_description = description t, exp_date = date t\<rparr>"] True
    show ?thesis by simp
  next
    case False
    then have "h3 = h2" unfolding h3_def by (rule if_not_P)
    with s2 False show ?thesis by simp
  qed
  have s5: "wf_locals h5 L \<and> accum_of h5 L =
              (accum_of h3 L)\<lparr>byMonth :=
                 month_update (month_key t) (add_amount (ttype t) (amount t)) (byMonth (accum_of h3 L))\<rparr>"
    unfolding h5_def by (rule stage_month[OF conjunct1[OF s3]])
  have a1: "accum_of h1 L = (accum_of h L)\<lparr>acc_sums := add_amount (ttype t) (amount t) (acc_sums (accum_of h L))\<rparr>"
    using s1 by (rule conjunct2)
  have a2: "accum_of h2 L =
              (accum_of h1 L)\<lparr>acc_byCategory :=
                 (acc_byCategory (accum_of h1 L))(category_key t \<mapsto>
                    (case acc_byCategory (accum_of h1 L) (category_key t) of None \<Rightarrow> 0 | Some v \<Rightarrow> v)
                      + amount t)\<rparr>"
    using s2 by (rule conjunct2)
  have a3: "accum_of h3 L =
              (accum_of h2 L)\<lparr>expenses :=
                 (if ttype t = ''debit''
                  then expenses (accum_of h2 L) @ [\<lparr>exp_amount = amount t, exp_description = description t,
                                                      exp_date = date t\<rparr>]
                  else expenses (accum_of h2 L))\<rparr>"
    using s3 by (rule conjunct2)
  have a5: "accum_of h5 L =
              (accum_of h3 L)\<lparr>byMonth :=
                 month_update (month_key t) (add_amount (ttype t) (amount t)) (byMonth (accum_of h3 L))\<rparr>"
    using s5 by (rule conjunct2)
  have p3: "accum_of h3 L = (analytics_step (accum_of h L) t)\<lparr>byMonth := byMonth (accum_of h L)\<rparr>"
    unfolding a3 a2 a1 by (simp add: analytics_step_def Let_def)
  show ?thesis
  proof (cases "month_key t \<noteq> []")
    case True
    have "accum_of h5 L = analytics_step (accum_of h L) t"
      unfolding a5 p3 using True by (simp add: analytics_step_def Let_def)
    with s True s5 show ?thesis by simp
  next
    case False
    have "accum_of h3 L = analytics_step (accum_of h L) t"
      unfolding p3 using False by (simp add: analytics_step_def Let_def)
    with s False s3 show ?thesis by simp
  qed
qed

text \<open>The loop.\<close>

lemma loop_h_accum:
  assumes L: "n \<le> sumsA L" "n \<le> byCategoryA L" "n \<le> expensesA L" "n \<le> byMonthA L"
  shows "n \<le> length h \<Longrightarrow> month_refs_fresh n h (byMonthA L) \<Longrightarrow> wf_locals h L \<Longrightarrow>
         list_all2 (\<lambda>r t. r < n \<and> hget h r = Some (TxObj t)) rs ts \<Longrightarrow>
         snd (loop_h L h rs) \<and> wf_locals (fst (loop_h L h rs)) L \<and>
         accum_of (fst (loop_h L h rs)) L = foldl analytics_step (accum_of h L) ts"
proof (induction rs arbitrary: h ts)
  case Nil
  then show ?case by simp
next
  case (Cons r rs)
  from Cons.prems(4) obtain t ts' where ts: "ts = t # ts'"
    and r: "r < n" "hget h r = Some (TxObj t)"
    and rest: "list_all2 (\<lambda>r t. r < n \<and> hget h r = Some (TxObj t)) rs ts'"
    by (auto simp: list_all2_Cons1)
  define h' where "h' = step_h L h t"
  from step_h_frame[OF Cons.prems(1) L Cons.prems(2), of t]
  have f: "ext n h h'" "month_refs_fresh n h' (byMonthA L)" by (auto simp: h'_def)
  from f(1) Cons.prems(1) have n': "n \<le> length h'" by (rule length_ext)
  from step_h_accum[OF Cons.prems(3), of t]
  have a: "wf_locals h' L" "accum_of h' L = analytics_step (accum_of h L) t" by (auto simp: h'_def)
  have rest': "list_all2 (\<lambda>r t. r < n \<and> hget h' r = Some (TxObj t)) rs ts'"
    using rest
  proof (rule list_all2_mono)
    fix x y assume "x < n \<and> hget h x = Some (TxObj y)"
    moreover from this have "hget h' x = hget h x"
      using ext_hget[OF f(1), of x] Cons.prems(1) by simp
    ultimately show "x < n \<and> hget h' x = Some (TxObj y)" by simp
  qed
  from Cons.IH[OF n' f(2) a(1) rest'] r ts a(2) show ?case
    by (simp add: h'_def)
qed

lemma halloc_all_eq: "halloc_all h objs = (h @ objs, [length h..<length h + length objs])"
proof (induction objs arbitrary: h)
  case Nil
  then show ?case by simp
next
  case (Cons obj objs)
  show ?case by (simp add: Cons.IH halloc_def upt_conv_Cons del: upt_Suc)
qed

lemma hget_append:
  "hget (h @ xs) a =
     (if a < length h then hget h a
      else if a < length h + length xs then Some (xs ! (a - length h)) else None)"
  by (auto simp: hget_def nth_append)

lemma insert_by_map:
  "map g (insert_by (\<lambda>x y. c (g x) (g y)) x ys) = insert_by c (g x) (map g ys)"
  by (induction ys) auto

lemma sort_by_map: "map g (sort_by (\<lambda>x y. c (g x) (g y)) xs) = sort_by c (map g xs)"
  by (induction xs) (simp_all add: sort_by_def insert_by_map)

lemma ext_Some: "ext n h h' \<Longrightarrow> a < n \<Longrightarrow> hget h a = Some v \<Longrightarrow> hget h' a = Some v"
  using ext_hget[of n h h' a] by (auto dest: hget_lt)

text \<open>The four locals at the start.\<close>

lemma init_h_accum:
  assumes "init_h h0 = (h, L)"
  shows "wf_locals h L \<and> accum_of h L = accum0"
proof -
  let ?l = "length h0"
  have h: "h = h0 @ [AggObj \<lparr>income = 0, expense = 0\<rparr>, CatObj Map.empty, RefArray [], MonthMap []]"
    and L: "sumsA L = ?l" "byCategoryA L = Suc ?l" "expensesA L = Suc (Suc ?l)"
      "byMonthA L = Suc (Suc (Suc ?l))"
    using assms by (auto simp: init_h_def halloc_def Let_def)
  have c: "hget h (sumsA L) = Some (AggObj \<lparr>income = 0, expense = 0\<rparr>)"
    "hget h (byCategoryA L) = Some (CatObj Map.empty)"
    "hget h (expensesA L) = Some (RefArray [])"
    "hget h (byMonthA L) = Some (MonthMap [])"
    by (simp_all add: h L hget_append)
  have "wf_locals h L" by (rule wf_localsI[OF c]) simp_all
  moreover have "accum_of h L = accum0" unfolding accum_ofI[OF c] by (simp add: accum0_def)
  ultimately show ?thesis ..
qed

text \<open>Sorting the expenses and taking five.\<close>

lemma top5_h_value:
  assumes w: "wf_locals h L" and t: "top5_h L h = (h', A)"
  shows "A = length h \<and> length h' = Suc (length h) \<and>
         (\<forall>b. b < length h \<and> b \<noteq> expensesA L \<longrightarrow> hget h' b = hget h b) \<and>
         (\<exists>tp. hget h' A = Some (RefArray tp) \<and>
                 (\<forall>e \<in> set tp. \<exists>x. hget h' e = Some (ExpObj x)) \<and>
                 map (exp_at h') tp =
                   take 5 (sort_by (\<lambda>x y. exp_amount y - exp_amount x) (expenses (accum_of h L))))"
proof -
  from wf_localsD[OF w] obtain s cm es mm where c:
    "hget h (sumsA L) = Some (AggObj s)"
    "hget h (byCategoryA L) = Some (CatObj cm)"
    "hget h (expensesA L) = Some (RefArray es)"
    "hget h (byMonthA L) = Some (MonthMap mm)"
    and ex: "\<forall>e \<in> set es. \<exists>x. hget h e = Some (ExpObj x)"
    by blast
  have lt: "expensesA L < length h" using c(3) by (rule hget_lt)
  define sorted where
    "sorted = sort_by (\<lambda>x y. exp_amount (exp_at h y) - exp_amount (exp_at h x)) es"
  define h1 where "h1 = hupdate h (expensesA L) (RefArray sorted)"
  have l1: "length h1 = length h" by (simp add: h1_def hupdate_def)
  have g1: "hget h1 b = (if b = expensesA L then Some (RefArray sorted) else hget h b)" for b
    using lt by (simp add: h1_def hget_hupdate)
  have r1: "refs_at h1 (expensesA L) = sorted" by (simp add: refs_at_def g1)
  have t': "top5_h L h = (h1 @ [RefArray (take 5 sorted)], length h)"
    unfolding top5_h_def Let_def at_simps(3)[OF c(3)] sorted_def[symmetric] h1_def[symmetric] r1
    by (simp add: halloc_def l1)
  with t have h': "h' = h1 @ [RefArray (take 5 sorted)]" and A: "A = length h" by simp_all
  have g': "hget h' b = (if b = length h then Some (RefArray (take 5 sorted)) else hget h1 b)" for b
    by (auto simp: h' hget_def l1 nth_append)
  have mem: "\<forall>e \<in> set sorted. hget h' e = hget h e \<and> (\<exists>x. hget h e = Some (ExpObj x))"
  proof
    fix e assume "e \<in> set sorted"
    then have "e \<in> set es" by (simp add: sorted_def set_sort_by)
    with ex obtain x where x: "hget h e = Some (ExpObj x)" by blast
    then have "e < length h" by (rule hget_lt)
    moreover from x c(3) have "e \<noteq> expensesA L" by auto
    ultimately show "hget h' e = hget h e \<and> (\<exists>x. hget h e = Some (ExpObj x))"
      using x by (simp add: g' g1)
  qed
  then have "map (exp_at h') sorted = map (exp_at h) sorted"
    by (simp add: exp_at_def)
  also have "\<dots> = sort_by (\<lambda>x y. exp_amount y - exp_amount x) (map (exp_at h) es)"
    unfolding sorted_def by (rule sort_by_map)
  finally have ms: "map (exp_at h') sorted =
      sort_by (\<lambda>x y. exp_amount y - exp_amount x) (map (exp_at h) es)" .
  have "map (exp_at h') (take 5 sorted) = take 5 (map (exp_at h') sorted)"
    by (rule take_map[symmetric])
  then have v: "map (exp_at h') (take 5 sorted) =
      take 5 (sort_by (\<lambda>x y. exp_amount y - exp_amount x) (expenses (accum_of h L)))"
    unfolding accum_ofI[OF c] by (simp add: ms)
  have ty: "\<forall>e \<in> set (take 5 sorted). \<exists>x. hget h' e = Some (ExpObj x)"
    using mem by (auto dest: in_set_takeD)
  have fr: "\<forall>b. b < length h \<and> b \<noteq> expensesA L \<longrightarrow> hget h' b = hget h b"
    by (simp add: g' g1)
  have tp: "hget h' A = Some (RefArray (take 5 sorted))" by (simp add: g' A)
  from A h' l1 fr tp ty v show ?thesis by auto
qed

text \<open>The entries of the map, sorted by key, and the trends made from them.\<close>

lemma trends_h_value:
  assumes c: "hget h (byMonthA L) = Some (MonthMap mm)"
    and ag: "\<forall>kv \<in> set mm. snd kv < length h"
    and t: "trends_h lc L h = (h', A)"
  shows "ext (length h) h h' \<and>
         (\<exists>trs. hget h' A = Some (RefArray trs) \<and>
                 (\<forall>r \<in> set trs. \<exists>x. hget h' r = Some (TrendObj x)) \<and>
                 map (trend_at h') trs =
                   map (\<lambda>(m, v). \<lparr>month = m, trend_income = round2 (income v),
                                    trend_expense = round2 (expense v)\<rparr>)
                       (sort_by (\<lambda>x y. lc (fst x) (fst y))
                          (map (\<lambda>kv. (fst kv, agg_at h (snd kv))) mm)))"
proof -
  let ?E = "\<lambda>(k, a). EntryArr k a :: 'a hobj"
  define l where "l = length h"
  define k where "k = length mm"
  define entries where "entries = [l..<l + k]"
  define h2 where "h2 = h @ map ?E mm @ [RefArray entries]"
  define sortedE where
    "sortedE = sort_by (\<lambda>x y. lc (entry_key h2 x) (entry_key h2 y)) entries"
  define h3 where "h3 = hupdate h2 (l + k) (RefArray sortedE)"
  define objs where
    "objs = map (\<lambda>e. TrendObj \<lparr>month = entry_key h3 e,
                                 trend_income = round2 (income (agg_at h3 (entry_val h3 e))),
                                 trend_expense = round2 (expense (agg_at h3 (entry_val h3 e)))\<rparr> :: 'a hobj)
                sortedE"
  define trends where "trends = [length h3..<length h3 + length objs]"
  have l2: "length h2 = Suc (l + k)" by (simp add: h2_def l_def k_def)
  have l3: "length h3 = Suc (l + k)" by (simp add: h3_def hupdate_def l2)
  have g2: "hget h2 b =
      (if b < l then hget h b
       else if b < l + k then Some (?E (mm ! (b - l)))
       else if b = l + k then Some (RefArray entries) else None)" for b
    by (auto simp: h2_def hget_def l_def k_def nth_append)
  have r2: "refs_at h2 (l + k) = entries" by (simp add: refs_at_def g2)
  have g3: "hget h3 b = (if b = l + k then Some (RefArray sortedE) else hget h2 b)" for b
    by (simp add: h3_def hget_hupdate l2)
  have r3: "refs_at h3 (l + k) = sortedE" by (simp add: refs_at_def g3)
  have lo: "length sortedE = length objs" by (simp add: objs_def)
  have t': "trends_h lc L h = ((h3 @ objs) @ [RefArray trends], length h3 + length objs)"
    unfolding trends_h_def c
    by (simp add: lo halloc_all_eq halloc_def Let_def l_def[symmetric] k_def[symmetric]
        entries_def[symmetric] h2_def[symmetric] r2 sortedE_def[symmetric] h3_def[symmetric]
        r3 objs_def[symmetric] trends_def[symmetric])
  with t have h': "h' = (h3 @ objs) @ [RefArray trends]" and A: "A = length h3 + length objs"
    by simp_all
  have g': "hget h' b =
      (if b < length h3 then hget h3 b
       else if b < length h3 + length objs then Some (objs ! (b - length h3))
       else if b = length h3 + length objs then Some (RefArray trends) else None)" for b
    by (auto simp: h' hget_def nth_append)
  have e: "ext (length h) h h'"
    by (simp add: ext_def h' h3_def hupdate_def h2_def l_def)
  have tp: "hget h' A = Some (RefArray trends)" by (simp add: g' A)
  have ty: "\<forall>r \<in> set trends. \<exists>x. hget h' r = Some (TrendObj x)"
    by (auto simp: trends_def g' objs_def)
  have "map (trend_at h') trends = map (\<lambda>i. case objs ! (i - length h3) of TrendObj t \<Rightarrow> t
                   | _ \<Rightarrow> \<lparr>month = [], trend_income = 0, trend_expense = 0\<rparr>) trends"
    by (rule map_cong) (auto simp: trends_def trend_at_def g')
  also have "\<dots> = map (\<lambda>e. \<lparr>month = entry_key h3 e,
                                 trend_income = round2 (income (agg_at h3 (entry_val h3 e))),
                                 trend_expense = round2 (expense (agg_at h3 (entry_val h3 e)))\<rparr>) sortedE"
    by (rule nth_equalityI) (simp_all add: trends_def objs_def)
  finally have v1: "map (trend_at h') trends =
      map (\<lambda>e. \<lparr>month = entry_key h3 e,
                  trend_income = round2 (income (agg_at h3 (entry_val h3 e))),
                  trend_expense = round2 (expense (agg_at h3 (entry_val h3 e)))\<rparr>) sortedE" .
  define g where "g = (\<lambda>e. (entry_key h2 e, agg_at h (entry_val h2 e)))"
  let ?F = "\<lambda>(m, v). \<lparr>month = m, trend_income = round2 (income v),
                         trend_expense = round2 (expense v)\<rparr>"
  have se: "set sortedE = {l..<l + k}" by (simp add: sortedE_def set_sort_by entries_def)
  have rd: "entry_key h3 e = entry_key h2 e \<and> entry_val h3 e = entry_val h2 e \<and>
            agg_at h3 (entry_val h2 e) = agg_at h (entry_val h2 e)"
    if "e \<in> set sortedE" for e
  proof -
    from that se have b: "l \<le> e" "e < l + k" by simp_all
    then have "mm ! (e - l) \<in> set mm" by (simp add: k_def)
    with ag have "snd (mm ! (e - l)) < l" by (simp add: l_def)
    with b show ?thesis
      by (simp add: entry_key_def entry_val_def agg_at_def g3 g2 split_def)
  qed
  have v2: "map (\<lambda>e. \<lparr>month = entry_key h3 e,
                  trend_income = round2 (income (agg_at h3 (entry_val h3 e))),
                  trend_expense = round2 (expense (agg_at h3 (entry_val h3 e)))\<rparr>) sortedE =
            map ?F (map g sortedE)"
    by (simp add: g_def rd)
  have ge: "map g entries = map (\<lambda>kv. (fst kv, agg_at h (snd kv))) mm"
    by (rule nth_equalityI)
      (simp_all add: entries_def k_def g_def entry_key_def entry_val_def g2 split_def)
  have "sortedE = sort_by (\<lambda>x y. lc (fst (g x)) (fst (g y))) entries"
    by (simp add: sortedE_def g_def)
  then have "map g sortedE = sort_by (\<lambda>x y. lc (fst x) (fst y)) (map g entries)"
    using sort_by_map[of g "\<lambda>x y. lc (fst x) (fst y)" entries] by simp
  with v1 v2 ge have v: "map (trend_at h') trends =
      map ?F (sort_by (\<lambda>x y. lc (fst x) (fst y)) (map (\<lambda>kv. (fst kv, agg_at h (snd kv))) mm))"
    by simp
  from e tp ty v show ?thesis by blast
qed

lemma amount_at_foldl:
  "list_all2 (\<lambda>r t. hget h r = Some (TxObj t)) rs ts \<Longrightarrow>
     foldl (\<lambda>s r. s + amount_at h r) a rs = foldl (\<lambda>s t. s + amount t) a ts"
proof (induction rs arbitrary: a ts)
  case Nil
  then show ?case by simp
next
  case (Cons r rs)
  then show ?case by (auto simp: list_all2_Cons1 amount_at_def)
qed

text \<open>The report object.\<close>

lemma report_h_value:
  assumes tx: "hget h transactionsA = Some (RefArray rs)"
      "list_all2 (\<lambda>r t. hget h r = Some (TxObj t)) rs ts"
    and ps: "hget h parsingSummaryA = Some (SummaryObj s)"
    and tp: "hget h top5A = Some (RefArray top5)" "\<forall>e \<in> set top5. \<exists>x. hget h e = Some (ExpObj x)"
    and tr: "hget h trendsA = Some (RefArray trs)" "\<forall>r \<in> set trs. \<exists>x. hget h r = Some (TrendObj x)"
    and cs: "hget h (sumsA L) = Some (AggObj sm)" "hget h (byCategoryA L) = Some (CatObj cm)"
    and r: "report_h L h sid transactionsA top5A trendsA parsingSummaryA = (h', A)"
  shows "report_of h' A =
           Some \<lparr> rep_statementId = sid,
                  totalIncome = round2 (income sm),
                  totalExpense = round2 (expense sm),
                  net = round2 (income sm - expense sm),
                  byCategory = map_option round2 \<circ> cm,
                  top5Expenses = map (\<lambda>e. e\<lparr>exp_amount := round2 (exp_amount e)\<rparr>) (map (exp_at h) top5),
                  monthlyTrends = map (trend_at h) trs,
                  transactionCount = length ts,
                  avgTransactionAmount =
                    (if length ts \<noteq> 0
                     then round2 (foldl (\<lambda>s t. s + amount t) 0 ts / of_nat (length ts))
                     else 0),
                  rep_parsingSummary = s \<rparr>"
proof -
  define l where "l = length h"
  define h1 where "h1 = h @ [CatObj (map_option round2 \<circ> cm) :: 'a hobj]"
  define objs where
    "objs = map (\<lambda>e. ExpObj ((exp_at h1 e)\<lparr>exp_amount := round2 (exp_amount (exp_at h1 e))\<rparr>) :: 'a hobj) top5"
  define outTop where "outTop = [length h1..<length h1 + length objs]"
  define rc where
    "rc = \<lparr> rc_statementId = sid,
            rc_totalIncome = round2 (income sm),
            rc_totalExpense = round2 (expense sm),
            rc_net = round2 (income sm - expense sm),
            rc_byCategory = l,
            rc_top5Expenses = length h1 + length objs,
            rc_monthlyTrends = trendsA,
            rc_transactionCount = length rs,
            rc_avgTransactionAmount =
              (if length rs \<noteq> 0
               then round2 (foldl (\<lambda>s r. s + amount_at h r) 0 rs / of_nat (length rs))
               else 0),
            rc_parsingSummary = parsingSummaryA \<rparr>"
  have lt: "transactionsA < l" "parsingSummaryA < l" "top5A < l" "trendsA < l"
    using tx(1) ps tp(1) tr(1) by (auto simp: l_def dest: hget_lt)
  have g1: "hget h1 b = (if b = l then Some (CatObj (map_option round2 \<circ> cm)) else hget h b)" for b
    by (auto simp: h1_def hget_def l_def nth_append)
  have r1: "refs_at h1 top5A = top5" using lt tp(1) by (simp add: refs_at_def g1)
  have lo: "length top5 = length objs" by (simp add: objs_def)
  have r': "report_h L h sid transactionsA top5A trendsA parsingSummaryA =
              ((((h1 @ objs) @ [RefArray outTop]) @ [ReportObj rc]), Suc (length h1 + length objs))"
    unfolding report_h_def at_simps(3)[OF tx(1)] at_simps(1)[OF cs(1)] cs(2) Let_def
    by (simp add: halloc_def halloc_all_eq h1_def[symmetric] l_def[symmetric] r1
        objs_def[symmetric] lo outTop_def rc_def del: upt_Suc)
  with r have h': "h' = ((h1 @ objs) @ [RefArray outTop]) @ [ReportObj rc]"
    and A0: "A = Suc (length h1 + length objs)" by simp_all
  have l1: "length h1 = Suc l" by (simp add: h1_def l_def)
  note A = A0 and oT = outTop_def
  have rcs: "rc_statementId rc = sid" "rc_totalIncome rc = round2 (income sm)"
    "rc_totalExpense rc = round2 (expense sm)" "rc_net rc = round2 (income sm - expense sm)"
    "rc_byCategory rc = l" "rc_top5Expenses rc = length h1 + length objs"
    "rc_monthlyTrends rc = trendsA" "rc_transactionCount rc = length rs"
    "rc_avgTransactionAmount rc =
              (if length rs \<noteq> 0
               then round2 (foldl (\<lambda>s r. s + amount_at h r) 0 rs / of_nat (length rs))
               else 0)"
    "rc_parsingSummary rc = parsingSummaryA"
    by (simp_all add: rc_def)
  have g': "hget h' b =
      (if b < length h1 then hget h1 b
       else if b < length h1 + length objs then Some (objs ! (b - length h1))
       else if b = length h1 + length objs then Some (RefArray outTop)
       else if b = Suc (length h1 + length objs) then Some (ReportObj rc) else None)" for b
    by (auto simp: h' hget_def nth_append)
  have old: "hget h' b = hget h b" if "b < l" for b
    using that by (simp add: g' g1 l1)
  have e1: "exp_at h1 e = exp_at h e" if "e \<in> set top5" for e
  proof -
    from that tp(2) obtain x where "hget h e = Some (ExpObj x)" by blast
    then have "e < l" unfolding l_def by (rule hget_lt)
    then show ?thesis by (simp add: exp_at_def g1)
  qed
  have a1: "hget h' A = Some (ReportObj rc)" by (simp add: g' A)
  have a2: "hget h' parsingSummaryA = Some (SummaryObj s)"
    using lt ps by (simp add: old)
  have a3: "cat_at h' l = map_option round2 \<circ> cm"
    by (simp add: cat_at_def g' g1 l1)
  have a4: "refs_at h' (length h1 + length objs) = outTop"
    by (simp add: refs_at_def g')
  have "map (exp_at h') outTop = map (\<lambda>i. case objs ! (i - length h1) of ExpObj x \<Rightarrow> x
        | _ \<Rightarrow> \<lparr>exp_amount = 0, exp_description = [], exp_date = None\<rparr>) outTop"
    by (rule map_cong) (auto simp: oT exp_at_def g')
  also have "\<dots> = map (\<lambda>e. (exp_at h1 e)\<lparr>exp_amount := round2 (exp_amount (exp_at h1 e))\<rparr>) top5"
    by (rule nth_equalityI) (simp_all add: oT objs_def)
  also have "\<dots> = map (\<lambda>e. e\<lparr>exp_amount := round2 (exp_amount e)\<rparr>) (map (exp_at h) top5)"
    by (simp add: e1)
  finally have a5: "map (exp_at h') outTop =
      map (\<lambda>e. e\<lparr>exp_amount := round2 (exp_amount e)\<rparr>) (map (exp_at h) top5)" .
  have a6: "refs_at h' trendsA = trs"
    using lt tr(1) by (simp add: refs_at_def old)
  have a7: "map (trend_at h') trs = map (trend_at h) trs"
  proof (rule map_cong)
    fix r assume "r \<in> set trs"
    with tr(2) obtain x where "hget h r = Some (TrendObj x)" by blast
    then have "r < l" unfolding l_def by (rule hget_lt)
    then show "trend_at h' r = trend_at h r" by (simp add: trend_at_def old)
  qed simp
  have a8: "length rs = length ts" using tx(2) by (rule list_all2_lengthD)
  have a9: "foldl (\<lambda>s r. s + amount_at h r) 0 rs = foldl (\<lambda>s t. s + amount t) 0 ts"
    using tx(2) by (rule amount_at_foldl)
  show ?thesis
    by (simp add: report_of_def a1 a2 a3 a4 a5 a6 a7 rcs a8 a9)
qed

theorem computeAnalytics_h_computes:
  assumes tx: "hget h0 transactionsA = Some (RefArray rs)"
      "list_all2 (\<lambda>r t. hget h0 r = Some (TxObj t)) rs ts"
    and ps: "hget h0 parsingSummaryA = Some (SummaryObj s)"
  shows "\<exists>h' A. computeAnalytics_h lc h0 sid transactionsA parsingSummaryA = (h', Some A) \<and>
                 report_of h' A = Some (computeAnalytics lc sid ts s)"
proof -
  define n where "n = length h0"
  define keep where "keep h \<longleftrightarrow> (\<forall>b v. hget h0 b = Some v \<longrightarrow> hget h b = Some v)" for h :: "'a heap"
  have keepD: "hget h b = Some v" if "keep h" "hget h0 b = Some v" for h b v
    using that by (simp add: keep_def)
  have keep_ext: "keep h'" if "keep h" "ext m h h'" "n \<le> m" for h h' m
    unfolding keep_def
  proof (intro allI impI)
    fix b v assume b: "hget h0 b = Some v"
    then have "b < n" unfolding n_def by (rule hget_lt)
    with that(3) have "b < m" by simp
    from ext_Some[OF that(2) this keepD[OF that(1) b]] show "hget h' b = Some v" .
  qed
  have k0: "keep h0" by (simp add: keep_def)
  \<comment> \<open>the locals\<close>
  obtain h1 L where i: "init_h h0 = (h1, L)" by (cases "init_h h0")
  have "n \<le> length h0" by (simp add: n_def)
  from init_h_frame[OF this i] have e1: "ext n h0 h1"
    and Lb: "n \<le> sumsA L" "n \<le> byCategoryA L" "n \<le> expensesA L" "n \<le> byMonthA L"
    and m1: "month_refs_fresh n h1 (byMonthA L)" by simp_all
  from init_h_accum[OF i] have w1: "wf_locals h1 L" and a1: "accum_of h1 L = accum0" by simp_all
  have k1: "keep h1" using k0 e1 by (rule keep_ext) simp
  have n1: "n \<le> length h1" using e1 by (rule length_ext) (simp add: n_def)
  \<comment> \<open>the loop\<close>
  have lst1: "list_all2 (\<lambda>r t. r < n \<and> hget h1 r = Some (TxObj t)) rs ts"
    using tx(2)
  proof (rule list_all2_mono)
    fix r t assume "hget h0 r = Some (TxObj t)"
    then show "r < n \<and> hget h1 r = Some (TxObj t)"
      using keepD[OF k1] by (auto simp: n_def dest: hget_lt)
  qed
  define h2 where "h2 = fst (loop_h L h1 rs)"
  from loop_h_accum[OF Lb n1 m1 w1 lst1]
  have ok: "snd (loop_h L h1 rs)" and w2: "wf_locals h2 L"
    and a2: "accum_of h2 L = foldl analytics_step accum0 ts"
    by (simp_all add: h2_def a1)
  have lp: "loop_h L h1 rs = (h2, True)" using ok by (simp add: h2_def prod_eq_iff)
  from loop_h_frame[OF Lb n1 m1, of rs] have e2: "ext n h1 h2" by (simp add: h2_def)
  have k2: "keep h2" using k1 e2 by (rule keep_ext) simp
  from wf_localsD[OF w2] obtain sm cm es mm where c2:
    "hget h2 (sumsA L) = Some (AggObj sm)"
    "hget h2 (byCategoryA L) = Some (CatObj cm)"
    "hget h2 (expensesA L) = Some (RefArray es)"
    "hget h2 (byMonthA L) = Some (MonthMap mm)"
    and ag2: "\<forall>kv \<in> set mm. snd kv \<noteq> sumsA L \<and> (\<exists>x. hget h2 (snd kv) = Some (AggObj x))"
    by blast
  note acc = accum_ofI[OF c2]
  \<comment> \<open>the five largest expenses\<close>
  obtain h3 top5A where t3: "top5_h L h2 = (h3, top5A)" by (cases "top5_h L h2")
  from top5_h_value[OF w2 t3] obtain tp where l3: "length h3 = Suc (length h2)"
    and f3: "\<forall>b. b < length h2 \<and> b \<noteq> expensesA L \<longrightarrow> hget h3 b = hget h2 b"
    and tp: "hget h3 top5A = Some (RefArray tp)"
      "\<forall>e \<in> set tp. \<exists>x. hget h3 e = Some (ExpObj x)"
    and tpv: "map (exp_at h3) tp =
        take 5 (sort_by (\<lambda>x y. exp_amount y - exp_amount x) (expenses (accum_of h2 L)))"
    by blast
  have o3: "hget h3 b = Some v" if "hget h2 b = Some v" "b \<noteq> expensesA L" for b v
    using that f3 by (auto dest: hget_lt)
  have k3: "keep h3"
    unfolding keep_def
  proof (intro allI impI)
    fix b v assume b: "hget h0 b = Some v"
    then have "b < n" unfolding n_def by (rule hget_lt)
    with Lb have "b \<noteq> expensesA L" by simp
    with keepD[OF k2 b] show "hget h3 b = Some v" by (rule o3)
  qed
  have c3: "hget h3 (sumsA L) = Some (AggObj sm)"
    "hget h3 (byCategoryA L) = Some (CatObj cm)"
    "hget h3 (byMonthA L) = Some (MonthMap mm)"
    using c2 by (auto intro!: o3)
  have ag3: "\<forall>kv \<in> set mm. snd kv < length h3 \<and> agg_at h3 (snd kv) = agg_at h2 (snd kv)"
  proof
    fix kv assume "kv \<in> set mm"
    with ag2 obtain x where x: "hget h2 (snd kv) = Some (AggObj x)" by blast
    with c2(3) have "snd kv \<noteq> expensesA L" by auto
    with x have "hget h3 (snd kv) = Some (AggObj x)" by (rule o3)
    with x show "snd kv < length h3 \<and> agg_at h3 (snd kv) = agg_at h2 (snd kv)"
      by (auto simp: agg_at_def dest: hget_lt)
  qed
  \<comment> \<open>the trends\<close>
  obtain h4 trendsA where t4: "trends_h lc L h3 = (h4, trendsA)" by (cases "trends_h lc L h3")
  have "\<forall>kv \<in> set mm. snd kv < length h3" using ag3 by simp
  from trends_h_value[OF c3(3) this t4] obtain trs where e4: "ext (length h3) h3 h4"
    and tr: "hget h4 trendsA = Some (RefArray trs)"
      "\<forall>r \<in> set trs. \<exists>x. hget h4 r = Some (TrendObj x)"
    and trv: "map (trend_at h4) trs =
        map (\<lambda>(m, v). \<lparr>month = m, trend_income = round2 (income v),
                         trend_expense = round2 (expense v)\<rparr>)
            (sort_by (\<lambda>x y. lc (fst x) (fst y)) (map (\<lambda>kv. (fst kv, agg_at h3 (snd kv))) mm))"
    by blast
  have o4: "hget h4 b = Some v" if "hget h3 b = Some v" for b v
    using ext_Some[OF e4 _ that] that by (auto dest: hget_lt)
  have k4: "keep h4" unfolding keep_def using keepD[OF k3] o4 by blast
  have tx4: "hget h4 transactionsA = Some (RefArray rs)"
    "list_all2 (\<lambda>r t. hget h4 r = Some (TxObj t)) rs ts"
    using keepD[OF k4 tx(1)] list_all2_mono[OF tx(2), of "\<lambda>r t. hget h4 r = Some (TxObj t)"] keepD[OF k4]
    by blast+
  have ps4: "hget h4 parsingSummaryA = Some (SummaryObj s)" using k4 ps by (rule keepD)
  have tp4: "hget h4 top5A = Some (RefArray tp)" "\<forall>e \<in> set tp. \<exists>x. hget h4 e = Some (ExpObj x)"
    using tp o4 by blast+
  have c4: "hget h4 (sumsA L) = Some (AggObj sm)" "hget h4 (byCategoryA L) = Some (CatObj cm)"
    using c3 o4 by blast+
  have ev: "map (exp_at h4) tp = map (exp_at h3) tp"
  proof (rule map_cong)
    fix e assume "e \<in> set tp"
    with tp(2) obtain x where x: "hget h3 e = Some (ExpObj x)" by blast
    from o4[OF this] x show "exp_at h4 e = exp_at h3 e" by (simp add: exp_at_def)
  qed simp
  have bm: "map (\<lambda>kv. (fst kv, agg_at h3 (snd kv))) mm = byMonth (accum_of h2 L)"
    unfolding acc using ag3 by simp
  \<comment> \<open>the report\<close>
  obtain h5 A where r5: "report_h L h4 sid transactionsA top5A trendsA parsingSummaryA = (h5, A)"
    by (cases "report_h L h4 sid transactionsA top5A trendsA parsingSummaryA")
  note rep = report_h_value[OF tx4 ps4 tp4 tr c4 r5]
  have run: "computeAnalytics_h lc h0 sid transactionsA parsingSummaryA = (h5, Some A)"
    unfolding computeAnalytics_h_def by (simp add: tx(1) i lp t3 t4 r5)
  have sm: "acc_sums (accum_of h2 L) = sm" and cm: "acc_byCategory (accum_of h2 L) = cm"
    by (simp_all add: acc)
  have "report_of h5 A = Some (computeAnalytics lc sid ts s)"
    unfolding rep computeAnalytics_def Let_def a2[symmetric] ev tpv trv bm sm cm
    by simp
  with run show ?thesis by blast
qed

text \<open>The example store: the report built in it is the one the pure model computes from
  the four elements of its array.\<close>

lemma example_store_report:
  "\<exists>h' A. computeAnalytics_h codeunit_compare example_store ''s1'' 3 4 = (h', Some A) \<and>
           report_of h' A =
             Some (computeAnalytics codeunit_compare ''s1''
                     [example_tx 10 ''debit'' (Some ''2024-02-01''),
                      example_tx 20 ''debit'' (Some ''2024-01-01''),
                      example_tx 5 ''credit'' None,
                      example_tx 20 ''debit'' (Some ''2024-01-01'')] ())"
proof (rule computeAnalytics_h_computes)
  show "hget example_store 3 = Some (RefArray [0, 1, 2, 1])"
    by (simp add: hget_def example_store_def)
  show "hget example_store 4 = Some (SummaryObj ())"
    by (simp add: hget_def example_store_def)
  show "list_all2 (\<lambda>r t. hget example_store r = Some (TxObj t)) [0, 1, 2, 1]
          [example_tx 10 ''debit'' (Some ''2024-02-01''),
           example_tx 20 ''debit'' (Some ''2024-01-01''),
           example_tx 5 ''credit'' None,
           example_tx 20 ''debit'' (Some ''2024-01-01'')]"
    by (simp add: hget_def example_store_def)
qed

end
